theory Spec2Isabelle
  imports Main
begin

section \<open>The platform: strings and regular expressions of ECMAScript\<close>

text \<open>
  The engine of Replacit (\<^verbatim>\<open>src/core/replacer.js\<close>, \<^verbatim>\<open>docxProcessor.js\<close>) is
  written against the regular expressions of JavaScript. They are not code of the
  repository, so this section models them, following the ECMAScript specification
  (RegExp pattern semantics, RegExpBuiltinExec, RegExp.prototype[Symbol.replace],
  GetSubstitution), for patterns without the \<^verbatim>\<open>u\<close> flag.

  A JavaScript string is a sequence of 16-bit code units. The model writes a string as
  a \<^typ>\<open>string\<close>, one \<^typ>\<open>char\<close> per code unit, so it covers the strings whose code
  units are below 256 (Latin-1); indices and lengths count code units as the source's do.

  The pattern syntax modelled: pattern characters, \<^verbatim>\<open>.\<close>, the escapes of syntax
  characters, \<^verbatim>\<open>\t \n \v \f \r\<close>, the classes \<^verbatim>\<open>\d \D \w \W \s \S\<close>, the
  assertions \<^verbatim>\<open>^ $ \b \B\<close>, alternation, capturing and non-capturing groups, and
  the quantifiers \<^verbatim>\<open>* + ?\<close>, greedy and lazy. Any other construct (character
  classes in brackets, braced quantifiers, look-around, back-references, named groups,
  other escapes) is answered with \<open>OutsideModel\<close>: the model says nothing about it.
\<close>

datatype error =
    SyntaxError          \<comment> \<open>thrown by \<^verbatim>\<open>new RegExp\<close> on a malformed pattern\<close>
  | OutsideModel         \<comment> \<open>the pattern uses syntax this model does not cover\<close>
  | Error string         \<comment> \<open>\<^verbatim>\<open>throw new Error(message)\<close>\<close>
  | ArchiveError         \<comment> \<open>\<^verbatim>\<open>JSZip.loadAsync\<close> rejects: the bytes are no archive\<close>
  | TypeError            \<comment> \<open>a method called on \<^verbatim>\<open>null\<close>\<close>

definition backslash :: char where
  "backslash = CHR 0x5C"

subsection \<open>Characters\<close>

definition isDigit :: "char \<Rightarrow> bool" where
  "isDigit c = (let n = (of_char c :: nat) in 48 \<le> n \<and> n \<le> 57)"

text \<open>WordCharacters: the letters, the digits and the underscore.\<close>

definition isWordChar :: "char \<Rightarrow> bool" where
  "isWordChar c = (let n = (of_char c :: nat) in
     (97 \<le> n \<and> n \<le> 122) \<or> (65 \<le> n \<and> n \<le> 90) \<or> (48 \<le> n \<and> n \<le> 57) \<or> n = 95)"

text \<open>WhiteSpace and LineTerminator code units below 256: TAB, LF, VT, FF, CR, SP, NBSP.\<close>

definition isSpace :: "char \<Rightarrow> bool" where
  "isSpace c = (let n = (of_char c :: nat) in (9 \<le> n \<and> n \<le> 13) \<or> n = 32 \<or> n = 160)"

definition isLineTerminator :: "char \<Rightarrow> bool" where
  "isLineTerminator c = (let n = (of_char c :: nat) in n = 10 \<or> n = 13)"

text \<open>
  Canonicalize: without the \<^verbatim>\<open>i\<close> flag the code unit itself; with it the code unit of
  the upper-case mapping, when that mapping is one code unit and does not take a
  non-ASCII character into ASCII. The result is a code unit number, since two mappings
  leave Latin-1 (U+00B5 to U+039C, U+00FF to U+0178).
\<close>

definition canonicalize :: "bool \<Rightarrow> char \<Rightarrow> nat" where
  "canonicalize ignoreCase ch = (let n = (of_char ch :: nat) in
     if \<not> ignoreCase then n
     else if 97 \<le> n \<and> n \<le> 122 then n - 32
     else if n = 181 then 924
     else if (224 \<le> n \<and> n \<le> 246) \<or> (248 \<le> n \<and> n \<le> 254) then n - 32
     else if n = 255 then 376
     else n)"

subsection \<open>Patterns\<close>

datatype cclass = ClassDigit | ClassWord | ClassSpace | ClassAny

datatype node =
    Empty                              \<comment> \<open>the empty alternative\<close>
  | Chr char                           \<comment> \<open>a pattern character\<close>
  | Cls bool cclass                    \<comment> \<open>a class (\<open>True\<close>: its complement); \<open>ClassAny\<close> is the dot\<close>
  | Bol                                \<comment> \<open>\<^verbatim>\<open>^\<close>\<close>
  | Eol                                \<comment> \<open>\<^verbatim>\<open>$\<close>\<close>
  | WordB bool                         \<comment> \<open>\<^verbatim>\<open>\b\<close> (\<open>False\<close>) and \<^verbatim>\<open>\B\<close> (\<open>True\<close>)\<close>
  | Seq node node
  | Alt node node
  | Group nat node                     \<comment> \<open>a capturing group and its number\<close>
  | Repeat nat "nat option" bool node  \<comment> \<open>min, max (\<open>None\<close>: unbounded), greedy, the atom\<close>

fun inClass :: "cclass \<Rightarrow> char \<Rightarrow> bool" where
  "inClass ClassDigit c = isDigit c"
| "inClass ClassWord c = isWordChar c"
| "inClass ClassSpace c = isSpace c"
| "inClass ClassAny c = (\<not> isLineTerminator c)"

fun groupsOf :: "node \<Rightarrow> nat list" where
  "groupsOf (Seq a b) = groupsOf a @ groupsOf b"
| "groupsOf (Alt a b) = groupsOf a @ groupsOf b"
| "groupsOf (Group k a) = k # groupsOf a"
| "groupsOf (Repeat mn mx g a) = groupsOf a"
| "groupsOf _ = []"

subsection \<open>The matcher\<close>

text \<open>
  A match state is the end index reached and the captures, each a pair of the start and
  end index of the captured substring.
\<close>

record mstate =
  endIndex :: nat
  captures :: "nat \<rightharpoonup> nat \<times> nat"

definition clearCaptures :: "nat list \<Rightarrow> mstate \<Rightarrow> mstate" where
  "clearCaptures ks x = x\<lparr>captures := (\<lambda>k. if k \<in> set ks then None else captures x k)\<rparr>"

definition advance :: "mstate \<Rightarrow> mstate" where
  "advance x = x\<lparr>endIndex := Suc (endIndex x)\<rparr>"

text \<open>IsWordChar at the index before \<open>e\<close> and at \<open>e\<close>; outside the input it is false.\<close>

definition wordBefore :: "string \<Rightarrow> nat \<Rightarrow> bool" where
  "wordBefore s e = (0 < e \<and> e - 1 < length s \<and> isWordChar (s ! (e - 1)))"

definition wordAt :: "string \<Rightarrow> nat \<Rightarrow> bool" where
  "wordAt s e = (e < length s \<and> isWordChar (s ! e))"

fun nodeSize :: "node \<Rightarrow> nat" where
  "nodeSize (Seq a b) = Suc (nodeSize a + nodeSize b)"
| "nodeSize (Alt a b) = Suc (nodeSize a + nodeSize b)"
| "nodeSize (Group k a) = Suc (nodeSize a)"
| "nodeSize (Repeat mn mx g a) = Suc (nodeSize a)"
| "nodeSize _ = 0"

text \<open>
  \<open>ms ic s r x\<close> lists the states in which \<open>r\<close> can end when started in \<open>x\<close> on the
  input \<open>s\<close>, in the order in which the backtracking matcher of the specification tries
  them: the matcher with continuation \<open>c\<close> returns the first of these states that \<open>c\<close>
  accepts. \<open>Repeat\<close> is RepeatMatcher: an iteration starts with the captures of its
  groups cleared, and once \<open>min\<close> is zero an iteration that consumes nothing is
  rejected. The test \<open>endIndex y \<le> length s\<close> there never fails (\<open>ms_bounds\<close> below);
  it makes the recursion visibly well-founded.
\<close>

function ms :: "bool \<Rightarrow> string \<Rightarrow> node \<Rightarrow> mstate \<Rightarrow> mstate list" where
  "ms ic s Empty x = [x]"
| "ms ic s (Chr c) x =
     (if endIndex x < length s \<and> canonicalize ic (s ! endIndex x) = canonicalize ic c
      then [advance x] else [])"
| "ms ic s (Cls neg cl) x =
     (if endIndex x < length s \<and> (inClass cl (s ! endIndex x) \<noteq> neg)
      then [advance x] else [])"
| "ms ic s Bol x = (if endIndex x = 0 then [x] else [])"
| "ms ic s Eol x = (if endIndex x = length s then [x] else [])"
| "ms ic s (WordB neg) x =
     (if (wordBefore s (endIndex x) \<noteq> wordAt s (endIndex x)) \<noteq> neg then [x] else [])"
| "ms ic s (Seq a b) x = concat (map (ms ic s b) (ms ic s a x))"
| "ms ic s (Alt a b) x = ms ic s a x @ ms ic s b x"
| "ms ic s (Group k a) x =
     map (\<lambda>y. y\<lparr>captures := (captures y)(k \<mapsto> (endIndex x, endIndex y))\<rparr>) (ms ic s a x)"
| "ms ic s (Repeat mn mx greedy a) x =
     (if mx = Some 0 then [x]
      else
        let iter = concat (map
              (\<lambda>y. if mn = 0 \<and> \<not> (endIndex x < endIndex y \<and> endIndex y \<le> length s) then []
                   else ms ic s (Repeat (mn - 1) (map_option (\<lambda>m. m - 1) mx) greedy a) y)
              (ms ic s a (clearCaptures (groupsOf a) x)))
        in if mn \<noteq> 0 then iter
           else if greedy then iter @ [x]
           else x # iter)"
  by pat_completeness auto
termination
  by (relation "inv_image (less_than <*lex*> less_than <*lex*> less_than)
        (\<lambda>(ic, s, r, x). (nodeSize r, (case r of Repeat mn mx g a \<Rightarrow> mn | _ \<Rightarrow> 0),
                          length s - endIndex x))")
     auto

subsection \<open>Parsing a pattern\<close>

datatype token = TAtom node | TStar | TPlus | TQuest | TBar | TOpen bool | TClose

text \<open>SyntaxCharacter of the pattern grammar.\<close>

definition syntaxChars :: string where
  "syntaxChars = ''^$'' @ [backslash] @ ''.*+?()[]{}|''"

definition atomEscape :: "char \<Rightarrow> node option" where
  "atomEscape c =
     (if c = CHR ''b'' then Some (WordB False)
      else if c = CHR ''B'' then Some (WordB True)
      else if c = CHR ''d'' then Some (Cls False ClassDigit)
      else if c = CHR ''D'' then Some (Cls True ClassDigit)
      else if c = CHR ''w'' then Some (Cls False ClassWord)
      else if c = CHR ''W'' then Some (Cls True ClassWord)
      else if c = CHR ''s'' then Some (Cls False ClassSpace)
      else if c = CHR ''S'' then Some (Cls True ClassSpace)
      else if c = CHR ''t'' then Some (Chr (CHR 0x09))
      else if c = CHR ''n'' then Some (Chr (CHR 0x0A))
      else if c = CHR ''v'' then Some (Chr (CHR 0x0B))
      else if c = CHR ''f'' then Some (Chr (CHR 0x0C))
      else if c = CHR ''r'' then Some (Chr (CHR 0x0D))
      else if c \<in> set syntaxChars \<or> c = CHR ''/'' then Some (Chr c)
      else None)"

definition consToken :: "token \<Rightarrow> error + token list \<Rightarrow> error + token list" where
  "consToken t r = (case r of Inl e \<Rightarrow> Inl e | Inr ts \<Rightarrow> Inr (t # ts))"

text \<open>
  The first error from the left is the one returned. A backslash that ends the pattern
  is a syntax error; brackets and braces are outside the model.
\<close>

fun tokenize :: "string \<Rightarrow> error + token list" where
  "tokenize [] = Inr []"
| "tokenize (c # r) =
     (if c = backslash then
        (case r of
           [] \<Rightarrow> Inl SyntaxError
         | d # r' \<Rightarrow>
             (case atomEscape d of
                None \<Rightarrow> Inl OutsideModel
              | Some a \<Rightarrow> consToken (TAtom a) (tokenize r')))
      else if c = CHR ''('' then
        (case r of
           [] \<Rightarrow> consToken (TOpen True) (tokenize r)
         | q # r' \<Rightarrow>
             if q = CHR ''?'' then
               (case r' of
                  [] \<Rightarrow> Inl OutsideModel
                | k # r'' \<Rightarrow>
                    if k = CHR '':'' then consToken (TOpen False) (tokenize r'')
                    else Inl OutsideModel)
             else consToken (TOpen True) (tokenize r))
      else if c = CHR '')'' then consToken TClose (tokenize r)
      else if c = CHR ''*'' then consToken TStar (tokenize r)
      else if c = CHR ''+'' then consToken TPlus (tokenize r)
      else if c = CHR ''?'' then consToken TQuest (tokenize r)
      else if c = CHR ''|'' then consToken TBar (tokenize r)
      else if c = CHR ''.'' then consToken (TAtom (Cls False ClassAny)) (tokenize r)
      else if c = CHR ''^'' then consToken (TAtom Bol) (tokenize r)
      else if c = CHR ''$'' then consToken (TAtom Eol) (tokenize r)
      else if c \<in> set ''[]{}'' then Inl OutsideModel
      else consToken (TAtom (Chr c)) (tokenize r))"

text \<open>
  What a quantifier may follow: an atom, but not an assertion and not a quantified
  atom; \<^verbatim>\<open>?\<close> after a greedy quantifier makes it lazy.
\<close>

datatype qkind = Quantifiable | Assertion | Quantified | QuantifiedLazy

fun isAssertion :: "node \<Rightarrow> bool" where
  "isAssertion Bol = True"
| "isAssertion Eol = True"
| "isAssertion (WordB neg) = True"
| "isAssertion _ = False"

fun quantify :: "token \<Rightarrow> node \<times> qkind \<Rightarrow> (node \<times> qkind) option" where
  "quantify TStar (a, Quantifiable) = Some (Repeat 0 None True a, Quantified)"
| "quantify TPlus (a, Quantifiable) = Some (Repeat 1 None True a, Quantified)"
| "quantify TQuest (a, Quantifiable) = Some (Repeat 0 (Some 1) True a, Quantified)"
| "quantify TQuest (Repeat mn mx g a, Quantified) = Some (Repeat mn mx False a, QuantifiedLazy)"
| "quantify t it = None"

definition seqOf :: "node list \<Rightarrow> node" where
  "seqOf ns = foldr Seq ns Empty"

fun altOf :: "node list \<Rightarrow> node" where
  "altOf [] = Empty"
| "altOf [a] = a"
| "altOf (a # as) = Alt a (altOf as)"

text \<open>
  An open group (or the pattern itself, at the bottom of the stack): its capture number
  if it captures, its finished alternatives and the terms of the current alternative,
  both latest first.
\<close>

datatype frame = Frame "nat option" "node list" "(node \<times> qkind) list"

definition closeFrame :: "node list \<Rightarrow> (node \<times> qkind) list \<Rightarrow> node" where
  "closeFrame alts cur = altOf (rev (seqOf (rev (map fst cur)) # alts))"

text \<open>\<open>n\<close> counts the capturing groups opened so far; they are numbered by their left parenthesis.\<close>

fun parseTokens :: "token list \<Rightarrow> frame list \<Rightarrow> nat \<Rightarrow> error + node \<times> nat" where
  "parseTokens [] st n =
     (case st of
        [Frame g alts cur] \<Rightarrow> Inr (closeFrame alts cur, n)
      | _ \<Rightarrow> Inl SyntaxError)"
| "parseTokens (t # ts) [] n = Inl SyntaxError"
| "parseTokens (t # ts) (Frame g alts cur # up) n =
     (case t of
        TAtom a \<Rightarrow>
          parseTokens ts
            (Frame g alts ((a, if isAssertion a then Assertion else Quantifiable) # cur) # up) n
      | TBar \<Rightarrow> parseTokens ts (Frame g (seqOf (rev (map fst cur)) # alts) [] # up) n
      | TOpen cap \<Rightarrow>
          if cap then parseTokens ts (Frame (Some (Suc n)) [] [] # Frame g alts cur # up) (Suc n)
          else parseTokens ts (Frame None [] [] # Frame g alts cur # up) n
      | TClose \<Rightarrow>
          (case up of
             [] \<Rightarrow> Inl SyntaxError
           | Frame g' alts' cur' # up' \<Rightarrow>
               let body = closeFrame alts cur;
                   a = (case g of Some k \<Rightarrow> Group k body | None \<Rightarrow> body)
               in parseTokens ts (Frame g' alts' ((a, Quantifiable) # cur') # up') n)
      | _ \<Rightarrow>
          (case cur of
             [] \<Rightarrow> Inl SyntaxError
           | it # cur' \<Rightarrow>
               (case quantify t it of
                  None \<Rightarrow> Inl SyntaxError
                | Some it' \<Rightarrow> parseTokens ts (Frame g alts (it' # cur') # up) n)))"

definition parsePattern :: "string \<Rightarrow> error + node \<times> nat" where
  "parsePattern src =
     (case tokenize src of
        Inl e \<Rightarrow> Inl e
      | Inr ts \<Rightarrow> parseTokens ts [Frame None [] []] 0)"

subsection \<open>RegExp objects\<close>

text \<open>
  The program builds every RegExp with the flags \<^verbatim>\<open>g\<close> or \<^verbatim>\<open>gi\<close>, so the object is
  global; \<open>lastIndex\<close> is passed to \<open>regExpExec\<close> and read from its result, and the
  loops below thread it as the source's loops do.
\<close>

record regexp =
  rxSource :: string
  rxIgnoreCase :: bool
  rxPattern :: node
  rxGroups :: nat

definition newRegExp :: "string \<Rightarrow> string \<Rightarrow> error + regexp" where
  "newRegExp src flags =
     (case parsePattern src of
        Inl e \<Rightarrow> Inl e
      | Inr (r, n) \<Rightarrow>
          Inr \<lparr>rxSource = src, rxIgnoreCase = (CHR ''i'' \<in> set flags), rxPattern = r,
              rxGroups = n\<rparr>)"

definition matchAt :: "regexp \<Rightarrow> string \<Rightarrow> nat \<Rightarrow> (nat \<times> mstate) option" where
  "matchAt rx s i =
     (case ms (rxIgnoreCase rx) s (rxPattern rx) \<lparr>endIndex = i, captures = Map.empty\<rparr> of
        [] \<Rightarrow> None
      | y # ys \<Rightarrow> Some (i, y))"

fun firstMatch :: "(nat \<Rightarrow> 'a option) \<Rightarrow> nat list \<Rightarrow> 'a option" where
  "firstMatch f [] = None"
| "firstMatch f (i # is) = (case f i of Some r \<Rightarrow> Some r | None \<Rightarrow> firstMatch f is)"

text \<open>
  RegExpBuiltinExec of a global RegExp: no match when \<open>lastIndex\<close> is beyond the input;
  otherwise the matcher is tried at \<open>lastIndex\<close>, \<open>lastIndex + 1\<close>, ... up to the length of
  the input. The result is the index of the match and its final state; the object's
  \<open>lastIndex\<close> becomes the end index of the match.
\<close>

definition regExpExec :: "regexp \<Rightarrow> string \<Rightarrow> nat \<Rightarrow> (nat \<times> mstate) option" where
  "regExpExec rx s lastIndex = firstMatch (matchAt rx s) [lastIndex ..< Suc (length s)]"

definition substring :: "string \<Rightarrow> nat \<Rightarrow> nat \<Rightarrow> string" where
  "substring s a b = take (b - a) (drop a s)"

subsection \<open>Replacement templates and String.prototype.replace\<close>

definition digitVal :: "char \<Rightarrow> nat" where
  "digitVal c = of_char c - 48"

text \<open>
  GetSubstitution for a RegExp without named groups: \<^verbatim>\<open>$$\<close>, \<^verbatim>\<open>$&\<close>, the text before
  (\<^verbatim>\<open>$`\<close>) and after (\<^verbatim>\<open>$'\<close>) the match, and \<^verbatim>\<open>$n\<close>, \<^verbatim>\<open>$nn\<close>: two digits when
  that index is at most the number of groups, else one digit; an index that names no
  group leaves the reference as it is written. \<open>caps\<close> are the captured strings,
  \<open>None\<close> for a group that did not take part.
\<close>

fun getSubstitution :: "string \<Rightarrow> string \<Rightarrow> nat \<Rightarrow> string option list \<Rightarrow> string \<Rightarrow> string" where
  "getSubstitution matched str position caps [] = []"
| "getSubstitution matched str position caps [c] = [c]"
| "getSubstitution matched str position caps (c # d # r) =
     (if c \<noteq> CHR ''$'' then c # getSubstitution matched str position caps (d # r)
      else if d = CHR ''$'' then CHR ''$'' # getSubstitution matched str position caps r
      else if d = CHR ''&'' then matched @ getSubstitution matched str position caps r
      else if d = CHR 0x60 then take position str @ getSubstitution matched str position caps r
      else if d = CHR 0x27 then
        drop (position + length matched) str @ getSubstitution matched str position caps r
      else if isDigit d then
        (case r of
           e # r' \<Rightarrow>
             if isDigit e \<and> 10 * digitVal d + digitVal e \<le> length caps then
               (let index = 10 * digitVal d + digitVal e in
                (if 1 \<le> index then (case caps ! (index - 1) of None \<Rightarrow> [] | Some t \<Rightarrow> t)
                 else [c, d, e])
                @ getSubstitution matched str position caps r')
             else
               (let index = digitVal d in
                (if 1 \<le> index \<and> index \<le> length caps
                 then (case caps ! (index - 1) of None \<Rightarrow> [] | Some t \<Rightarrow> t)
                 else [c, d])
                @ getSubstitution matched str position caps r)
         | [] \<Rightarrow>
             (let index = digitVal d in
              (if 1 \<le> index \<and> index \<le> length caps
               then (case caps ! (index - 1) of None \<Rightarrow> [] | Some t \<Rightarrow> t)
               else [c, d])))
      else c # getSubstitution matched str position caps (d # r))"

definition captureStrings :: "regexp \<Rightarrow> string \<Rightarrow> mstate \<Rightarrow> string option list" where
  "captureStrings rx s y =
     map (\<lambda>k. map_option (\<lambda>(a, b). substring s a b) (captures y k)) [1 ..< Suc (rxGroups rx)]"

text \<open>
  \<open>substitute\<close> is the second loop of RegExp.prototype[Symbol.replace] with a string as
  the replace value: \<open>nsp\<close> is nextSourcePosition.
\<close>

fun substitute :: "regexp \<Rightarrow> string \<Rightarrow> string \<Rightarrow> nat \<Rightarrow> (nat \<times> mstate) list \<Rightarrow> string" where
  "substitute rx s replaceValue nsp [] = drop nsp s"
| "substitute rx s replaceValue nsp ((i, y) # results) =
     (let matched = substring s i (endIndex y);
          position = min i (length s);
          replacement = getSubstitution matched s position (captureStrings rx s y) replaceValue
      in if nsp \<le> position
         then substring s nsp position @ replacement @
              substitute rx s replaceValue (position + length matched) results
         else substitute rx s replaceValue nsp results)"

subsection \<open>Matches stay inside the input\<close>

declare ms.simps(10) [simp del]

lemma ms_bounds:
  "y \<in> set (ms ic s r x) \<Longrightarrow> endIndex x \<le> length s \<Longrightarrow>
     endIndex x \<le> endIndex y \<and> endIndex y \<le> length s"
proof (induction ic s r x arbitrary: y rule: ms.induct)
  case (7 ic s a b x)
  from "7.prems"(1) obtain z where z: "z \<in> set (ms ic s a x)" and y: "y \<in> set (ms ic s b z)"
    by auto
  from "7.IH"(1)[OF z "7.prems"(2)] have bz: "endIndex x \<le> endIndex z \<and> endIndex z \<le> length s" .
  from "7.IH"(2)[OF z y] bz show ?case by auto
next
  case (10 ic s mn mx greedy a x)
  show ?case
  proof (cases "mx = Some 0")
    case True
    with "10.prems" show ?thesis by (simp add: ms.simps(10))
  next
    case False
    let ?x0 = "clearCaptures (groupsOf a) x"
    have x0: "endIndex ?x0 = endIndex x" by (simp add: clearCaptures_def)
    from "10.prems"(1) False have
      "y = x \<or> (\<exists>z \<in> set (ms ic s a ?x0).
          \<not> (mn = 0 \<and> \<not> (endIndex x < endIndex z \<and> endIndex z \<le> length s)) \<and>
          y \<in> set (ms ic s (Repeat (mn - 1) (map_option (\<lambda>m. m - 1) mx) greedy a) z))"
      by (subst (asm) ms.simps(10)) (auto simp: Let_def split: if_splits)
    then show ?thesis
    proof
      assume "y = x" with "10.prems"(2) show ?thesis by simp
    next
      assume "\<exists>z \<in> set (ms ic s a ?x0).
          \<not> (mn = 0 \<and> \<not> (endIndex x < endIndex z \<and> endIndex z \<le> length s)) \<and>
          y \<in> set (ms ic s (Repeat (mn - 1) (map_option (\<lambda>m. m - 1) mx) greedy a) z)"
      then obtain z where z: "z \<in> set (ms ic s a ?x0)"
        and g: "\<not> (mn = 0 \<and> \<not> (endIndex x < endIndex z \<and> endIndex z \<le> length s))"
        and y: "y \<in> set (ms ic s (Repeat (mn - 1) (map_option (\<lambda>m. m - 1) mx) greedy a) z)"
        by blast
      from "10.IH"(1)[OF False z] "10.prems"(2) x0
      have bz: "endIndex x \<le> endIndex z \<and> endIndex z \<le> length s" by simp
      from "10.IH"(2)[OF False z g y] bz show ?thesis by auto
    qed
  qed
qed (auto simp: advance_def split: if_splits)

lemma firstMatch_Some:
  "firstMatch f xs = Some r \<Longrightarrow> \<exists>i \<in> set xs. f i = Some r"
  by (induction xs) (auto split: option.splits)

lemma regExpExec_bounds:
  assumes "regExpExec rx s lastIndex = Some (i, y)"
  shows "lastIndex \<le> i \<and> i \<le> endIndex y \<and> endIndex y \<le> length s"
proof -
  from assms obtain j where j: "j \<in> set [lastIndex ..< Suc (length s)]"
    and m: "matchAt rx s j = Some (i, y)"
    unfolding regExpExec_def by (blast dest: firstMatch_Some)
  from m have ij: "i = j"
    and y: "y \<in> set (ms (rxIgnoreCase rx) s (rxPattern rx) \<lparr>endIndex = j, captures = Map.empty\<rparr>)"
    by (auto simp: matchAt_def split: list.splits)
  from j have "j \<le> length s" by auto
  with ms_bounds[OF y] j ij show ?thesis by auto
qed

text \<open>
  The first loop of RegExp.prototype[Symbol.replace] for a global RegExp: \<open>lastIndex\<close>
  starts at 0, every result is collected, and after an empty match \<open>lastIndex\<close> is
  advanced by one code unit.
\<close>

function execAll :: "regexp \<Rightarrow> string \<Rightarrow> nat \<Rightarrow> (nat \<times> mstate) list" where
  "execAll rx s lastIndex =
     (case regExpExec rx s lastIndex of
        None \<Rightarrow> []
      | Some (i, y) \<Rightarrow>
          (i, y) # execAll rx s (if substring s i (endIndex y) = [] then Suc (endIndex y)
                                 else endIndex y))"
  by pat_completeness auto
termination
proof (relation "measure (\<lambda>(rx, s, lastIndex). Suc (length s) - lastIndex)", goal_cases)
  case 1
  show ?case by simp
next
  case (2 rx s lastIndex x2 i y)
  from regExpExec_bounds[of rx s lastIndex i y] 2
  have b: "lastIndex \<le> i \<and> i \<le> endIndex y \<and> endIndex y \<le> length s" by simp
  then show ?case by (auto simp: substring_def)
qed

definition regExpReplace :: "regexp \<Rightarrow> string \<Rightarrow> string \<Rightarrow> string" where
  "regExpReplace rx s replaceValue = substitute rx s replaceValue 0 (execAll rx s 0)"

section \<open>replacer.js\<close>

record options =
  isCaseSensitive :: bool
  isWholeWord :: bool
  isRegex :: bool

text \<open>
  \<^verbatim>\<open>str.replace(/[.*+?^${}()|[\]\\]/g, '\\$&')\<close>: every character of the class is
  replaced by a backslash and itself (\<^verbatim>\<open>$&\<close> is the matched character).
\<close>

definition escapeRegexChars :: "string \<Rightarrow> string" where
  "escapeRegexChars str =
     concat (map (\<lambda>c. if c \<in> set (''.*+?^${}()|[]'' @ [backslash]) then [backslash, c] else [c]) str)"

text \<open>\<open>None\<close> is the \<^verbatim>\<open>null\<close> returned for an empty pattern (\<^verbatim>\<open>!pattern\<close>).\<close>

definition buildRegex :: "string \<Rightarrow> options \<Rightarrow> error + regexp option" where
  "buildRegex pattern opts =
     (if pattern = [] then Inr None
      else
        let source = (if isRegex opts then pattern else escapeRegexChars pattern);
            source = (if isWholeWord opts
                      then [backslash, CHR ''b''] @ source @ [backslash, CHR ''b'']
                      else source);
            flags = (if isCaseSensitive opts then ''g'' else ''gi'')
        in case newRegExp source flags of
             Inl e \<Rightarrow> Inl e
           | Inr regex \<Rightarrow> Inr (Some regex))"

record position =
  start :: nat
  end' :: nat
  match :: string

record matches =
  count :: nat
  positions :: "position list"

text \<open>The \<^verbatim>\<open>while\<close> loop of findMatches, from the current \<open>lastIndex\<close> of the RegExp.\<close>

function findLoop :: "regexp \<Rightarrow> string \<Rightarrow> nat \<Rightarrow> position list" where
  "findLoop regex text lastIndex =
     (case regExpExec regex text lastIndex of
        None \<Rightarrow> []
      | Some (index, y) \<Rightarrow>
          (let m0 = substring text index (endIndex y) in
           \<lparr>start = index, end' = index + length m0, match = m0\<rparr> #
           findLoop regex text (if length m0 = 0 then Suc (endIndex y) else endIndex y)))"
  by pat_completeness auto
termination
proof (relation "measure (\<lambda>(regex, text, lastIndex). Suc (length text) - lastIndex)", goal_cases)
  case 1
  show ?case by simp
next
  case (2 regex tx lastIndex x2 index y m0)
  from regExpExec_bounds[of regex tx lastIndex index y] 2
  have b: "lastIndex \<le> index \<and> index \<le> endIndex y \<and> endIndex y \<le> length tx" by simp
  with 2 show ?case by (auto simp: substring_def)
qed

definition findMatches :: "string \<Rightarrow> string \<Rightarrow> options \<Rightarrow> error + matches" where
  "findMatches text pattern opts =
     (case buildRegex pattern opts of
        Inl e \<Rightarrow> Inl e
      | Inr None \<Rightarrow> Inr \<lparr>count = 0, positions = []\<rparr>
      | Inr (Some regex) \<Rightarrow>
          (let positions = findLoop regex text 0
           in Inr \<lparr>count = length positions, positions = positions\<rparr>))"

definition replaceAll :: "string \<Rightarrow> string \<Rightarrow> string \<Rightarrow> options \<Rightarrow> error + string" where
  "replaceAll text pattern replacement opts =
     (case buildRegex pattern opts of
        Inl e \<Rightarrow> Inl e
      | Inr None \<Rightarrow> Inr text
      | Inr (Some regex) \<Rightarrow> Inr (regExpReplace regex text replacement))"

section \<open>docxProcessor.js\<close>

text \<open>
  A JSZip archive is a mutable object: its entries by path, each entry here with its
  content as a string. The archives live in a store, a list indexed by reference, so
  that two state fields can hold the same object.
\<close>

type_synonym jszip = "string \<rightharpoonup> string"

type_synonym store = "jszip list"

definition DOCUMENT_XML_PATH :: string where
  "DOCUMENT_XML_PATH = ''word/document.xml''"

definition getDocumentXml :: "jszip \<Rightarrow> error + string" where
  "getDocumentXml archive =
     (case archive DOCUMENT_XML_PATH of
        None \<Rightarrow> Inl (Error ''Invalid .docx: word/document.xml not found.'')
      | Some xml \<Rightarrow> Inr xml)"

text \<open>
  \<^verbatim>\<open>/<w:t([^>]*)>([^<]*)<\/w:t>/\<close> tried at the head of \<open>s\<close>: the two groups, when it
  matches. Neither group can end earlier than at the first \<^verbatim>\<open>>\<close> and the first
  \<^verbatim>\<open><\<close>, so there is nothing to backtrack into. The pattern looks at nothing before
  its start, so a match at an index of a string is a match at the head of the suffix.
\<close>

definition matchTextTag :: "string \<Rightarrow> (string \<times> string) option" where
  "matchTextTag s =
     (if take 4 s = ''<w:t'' then
        (let r = drop 4 s;
             attrs = takeWhile (\<lambda>c. c \<noteq> CHR ''>'') r
         in case dropWhile (\<lambda>c. c \<noteq> CHR ''>'') r of
              [] \<Rightarrow> None
            | g # r2 \<Rightarrow>
                (let tx = takeWhile (\<lambda>c. c \<noteq> CHR ''<'') r2
                 in if take 6 (dropWhile (\<lambda>c. c \<noteq> CHR ''<'') r2) = ''</w:t>''
                    then Some (attrs, tx) else None))
      else None)"

definition tagLength :: "string \<Rightarrow> string \<Rightarrow> nat" where
  "tagLength attrs tx = 4 + length attrs + 1 + length tx + 6"

record segment =
  fullMatch :: string
  attrs :: string
  seg_text :: string
  seg_start :: nat
  seg_end :: nat

text \<open>
  The loop \<^verbatim>\<open>while ((match = textTagRegex.exec(paragraphXml)) !== null)\<close>: \<open>s\<close> is the
  part of the string from \<open>lastIndex\<close> on, and \<open>lastIndex\<close> its index in the string.
\<close>

function collectSegments :: "string \<Rightarrow> nat \<Rightarrow> segment list" where
  "collectSegments [] lastIndex = []"
| "collectSegments (c # r) lastIndex =
     (case matchTextTag (c # r) of
        Some (a, tx) \<Rightarrow>
          \<lparr>fullMatch = take (tagLength a tx) (c # r), attrs = a, seg_text = tx,
           seg_start = lastIndex, seg_end = lastIndex + tagLength a tx\<rparr> #
          collectSegments (drop (tagLength a tx) (c # r)) (lastIndex + tagLength a tx)
      | None \<Rightarrow> collectSegments r (Suc lastIndex))"
  by pat_completeness auto
termination
  by (relation "measure (\<lambda>(s, lastIndex). length s)") (auto simp: tagLength_def)

text \<open>\<^verbatim>\<open>tag.replace(/<w:t[^>]*>/, '')\<close> and \<^verbatim>\<open>.replace(/<\/w:t>/, '')\<close>: the first match is removed.\<close>

fun removeOpenTag :: "string \<Rightarrow> string" where
  "removeOpenTag [] = []"
| "removeOpenTag (c # r) =
     (if take 4 (c # r) = ''<w:t'' \<and> CHR ''>'' \<in> set (drop 4 (c # r))
      then tl (dropWhile (\<lambda>d. d \<noteq> CHR ''>'') (drop 4 (c # r)))
      else c # removeOpenTag r)"

fun removeCloseTag :: "string \<Rightarrow> string" where
  "removeCloseTag [] = []"
| "removeCloseTag (c # r) =
     (if take 6 (c # r) = ''</w:t>'' then drop 6 (c # r) else c # removeCloseTag r)"

definition extractTextFromXml :: "string \<Rightarrow> string" where
  "extractTextFromXml xml =
     (let textMatches = map fullMatch (collectSegments xml 0)
      in if textMatches = [] then []
         else concat (map (\<lambda>tag. removeCloseTag (removeOpenTag tag)) textMatches))"

text \<open>
  The loop \<^verbatim>\<open>for (let i = segments.length - 1; i >= 0; i--)\<close> of replaceInParagraph;
  the counter is \<open>i + 1\<close>.
\<close>

fun redistribute :: "segment list \<Rightarrow> string \<Rightarrow> nat \<Rightarrow> string \<Rightarrow> string" where
  "redistribute segments replacedText 0 result = result"
| "redistribute segments replacedText (Suc i) result =
     (let segment = segments ! i;
          newText = (if i = 0 then replacedText else []);
          attrs' = (if length newText > 0 then '' xml:space=\"preserve\"'' else attrs segment);
          newTag = ''<w:t'' @ attrs' @ ''>'' @ newText @ ''</w:t>''
      in redistribute segments replacedText i
           (take (seg_start segment) result @ newTag @ drop (seg_end segment) result))"

definition replaceInParagraph :: "string \<Rightarrow> regexp \<Rightarrow> string \<Rightarrow> string" where
  "replaceInParagraph paragraphXml regex replacement =
     (let segments = collectSegments paragraphXml 0
      in if length segments = 0 then paragraphXml
         else
           let fullText = concat (map seg_text segments);
               replacedText = regExpReplace regex fullText replacement
           in if fullText = replacedText then paragraphXml
              else redistribute segments replacedText (length segments) paragraphXml)"

text \<open>
  \<^verbatim>\<open>/<w:p[ >][\s\S]*?<\/w:p>/\<close> tried at the head of \<open>s\<close>: the length of the match, which
  ends with the first \<^verbatim>\<open></w:p>\<close> after the opening.
\<close>

fun findClose :: "string \<Rightarrow> nat option" where
  "findClose [] = None"
| "findClose (c # r) =
     (if take 6 (c # r) = ''</w:p>'' then Some 0 else map_option Suc (findClose r))"

definition matchParagraph :: "string \<Rightarrow> nat option" where
  "matchParagraph s =
     (if take 4 s = ''<w:p'' \<and> 4 < length s \<and> (s ! 4 = CHR '' '' \<or> s ! 4 = CHR ''>'')
      then map_option (\<lambda>k. 5 + k + 6) (findClose (drop 5 s))
      else None)"

text \<open>
  \<^verbatim>\<open>xml.replace(/<w:p[ >][\s\S]*?<\/w:p>/g, f)\<close> with a function \<open>f\<close>: each match is
  replaced by what \<open>f\<close> returns for it, the rest is copied.
\<close>

function replaceParagraphs :: "(string \<Rightarrow> string) \<Rightarrow> string \<Rightarrow> string" where
  "replaceParagraphs f [] = []"
| "replaceParagraphs f (c # r) =
     (case matchParagraph (c # r) of
        Some n \<Rightarrow> f (take n (c # r)) @ replaceParagraphs f (drop n (c # r))
      | None \<Rightarrow> c # replaceParagraphs f r)"
  by pat_completeness auto
termination
  by (relation "measure (\<lambda>(f, s). length s)") (auto simp: matchParagraph_def split: if_splits)

definition replaceInXml :: "string \<Rightarrow> string \<Rightarrow> string \<Rightarrow> options \<Rightarrow> error + string" where
  "replaceInXml xml pattern replacement opts =
     (case buildRegex pattern opts of
        Inl e \<Rightarrow> Inl e
      | Inr None \<Rightarrow> Inr xml
      | Inr (Some regex) \<Rightarrow>
          Inr (replaceParagraphs (\<lambda>paragraph. replaceInParagraph paragraph regex replacement) xml))"

text \<open>
  replaceInDocx writes the new XML into the archive it was given
  (\<^verbatim>\<open>zip.file(DOCUMENT_XML_PATH, modifiedXml)\<close>) and returns that same reference.
\<close>

definition replaceInDocx ::
  "store \<Rightarrow> nat \<Rightarrow> string \<Rightarrow> string \<Rightarrow> options \<Rightarrow> error + store \<times> nat" where
  "replaceInDocx h zipRef pattern replacement opts =
     (case getDocumentXml (h ! zipRef) of
        Inl e \<Rightarrow> Inl e
      | Inr xml \<Rightarrow>
          (case replaceInXml xml pattern replacement opts of
             Inl e \<Rightarrow> Inl e
           | Inr modifiedXml \<Rightarrow>
               Inr (h[zipRef := (h ! zipRef)(DOCUMENT_XML_PATH \<mapsto> modifiedXml)], zipRef)))"

section \<open>main.js and the components it reads\<close>

text \<open>
  The handlers of main.js run one at a time (the caller serializes them), so each is a
  function from the state before to the state after. \<open>Inl (e, s)\<close> is the exception \<open>e\<close>
  leaving the handler uncaught, with the state \<open>s\<close> as it was when \<open>e\<close> was thrown.

  What the browser and the libraries supply is an argument: the file picked, the values
  of the find and replace inputs (\<open>inputs\<close>), the option toggles (\<open>opts\<close>), and the
  \<open>platform\<close>: Mammoth's HTML for an archive and the text nodes the DOM finds in an
  HTML string.
\<close>

datatype fileKind = Docx | Txt

record jsfile =
  name :: string
  fileText :: string              \<comment> \<open>what \<^verbatim>\<open>readAsText(file, 'UTF-8')\<close> gives\<close>
  fileArchive :: "jszip option"   \<comment> \<open>what \<^verbatim>\<open>JSZip.loadAsync\<close> gives; \<open>None\<close>: it rejects\<close>

record pair =
  find :: string
  replace :: string

record platform =
  generateHtmlPreview :: "jszip \<Rightarrow> string"
  domTextNodes :: "string \<Rightarrow> string list"

datatype toast = FileLoaded | LoadFailed | Replaced nat | ReplaceFailed | UndoSuccessful

text \<open>
  The fields of the \<^verbatim>\<open>state\<close> object of main.js, then what lies outside it: the store
  of the JSZip objects the state refers to, the last toast shown, the match count
  badge, and the enabled flags of the buttons (replace, undo, download).
\<close>

record state =
  currentFile :: "jsfile option"
  fileType :: "fileKind option"
  originalText :: string
  currentText :: string
  originalZip :: "nat option"
  currentZip :: "nat option"
  previewHtml :: string
  undoText :: "string option"
  undoZip :: "nat option"
  hasReplaced :: bool
  zips :: store
  lastToast :: "toast option"
  matchCount :: nat
  buttons :: "bool \<times> bool \<times> bool"

subsection \<open>fileHelpers.js, ReplacementList.js, Preview.js\<close>

text \<open>\<^verbatim>\<open>toLowerCase\<close> on a code unit below 256.\<close>

definition toLowerCase :: "char \<Rightarrow> char" where
  "toLowerCase c = (let n = (of_char c :: nat) in
     if (65 \<le> n \<and> n \<le> 90) \<or> (192 \<le> n \<and> n \<le> 214) \<or> (216 \<le> n \<and> n \<le> 222)
     then char_of (n + 32) else c)"

definition getFileExtension :: "jsfile \<Rightarrow> string" where
  "getFileExtension f =
     (if CHR ''.'' \<notin> set (name f) then []
      else map toLowerCase (CHR ''.'' # rev (takeWhile (\<lambda>c. c \<noteq> CHR ''.'') (rev (name f)))))"

definition trim :: "string \<Rightarrow> string" where
  "trim s = rev (dropWhile isSpace (rev (dropWhile isSpace s)))"

text \<open>getPairs: the pairs of the inputs, in their order, whose find value is not blank.\<close>

definition getPairs :: "pair list \<Rightarrow> pair list" where
  "getPairs inputs = filter (\<lambda>p. trim (find p) \<noteq> []) inputs"

text \<open>
  The two renderers return the match count; the markup they write into the preview
  element is left out. \<open>highlightNodes\<close> is the loop of highlightInHtml over the text nodes.
\<close>

definition renderTextPreview :: "string \<Rightarrow> string \<Rightarrow> options \<Rightarrow> error + nat" where
  "renderTextPreview text pattern opts =
     (if text = [] then Inr 0
      else if pattern = [] \<or> trim pattern = [] then Inr 0
      else case findMatches text pattern opts of
             Inl e \<Rightarrow> Inl e
           | Inr r \<Rightarrow> Inr (count r))"

fun highlightNodes :: "string list \<Rightarrow> string \<Rightarrow> options \<Rightarrow> nat \<Rightarrow> error + nat" where
  "highlightNodes [] pattern opts totalCount = Inr totalCount"
| "highlightNodes (node # nodes) pattern opts totalCount =
     (case findMatches node pattern opts of
        Inl e \<Rightarrow> Inl e
      | Inr r \<Rightarrow>
          highlightNodes nodes pattern opts
            (if count r > 0 then totalCount + count r else totalCount))"

definition renderHtmlPreview :: "platform \<Rightarrow> string \<Rightarrow> string \<Rightarrow> options \<Rightarrow> error + nat" where
  "renderHtmlPreview P html pattern opts =
     (if html = [] then Inr 0
      else if pattern = [] \<or> trim pattern = [] then Inr 0
      else highlightNodes (domTextNodes P html) pattern opts 0)"

subsection \<open>The handlers\<close>

definition resetUndoState :: "state \<Rightarrow> state" where
  "resetUndoState s = s\<lparr>undoText := None, undoZip := None, hasReplaced := False\<rparr>"

definition handleInputChange ::
  "platform \<Rightarrow> pair list \<Rightarrow> options \<Rightarrow> state \<Rightarrow> error \<times> state + state" where
  "handleInputChange P inputs opts s =
     (if currentFile s = None then Inr s
      else
        let pairs = getPairs inputs;
            hasPatterns = (length pairs > 0);
            firstPattern = (if hasPatterns then find (hd pairs) else [])
        in case (if fileType s = Some Txt
                 then renderTextPreview (currentText s) firstPattern opts
                 else renderHtmlPreview P (previewHtml s) firstPattern opts) of
             Inl e \<Rightarrow> Inl (e, s)
           | Inr n \<Rightarrow>
               Inr (s\<lparr>matchCount := n,
                      buttons := (hasPatterns \<and> n > 0, hasReplaced s, hasReplaced s)\<rparr>))"

definition loadTextFile :: "jsfile \<Rightarrow> state \<Rightarrow> error \<times> state + state" where
  "loadTextFile f s = Inr (s\<lparr>originalText := fileText f, currentText := fileText f\<rparr>)"

text \<open>loadDocx: a new JSZip object in the store.\<close>

definition loadDocx :: "jsfile \<Rightarrow> store \<Rightarrow> error + store \<times> nat" where
  "loadDocx f h =
     (case fileArchive f of
        None \<Rightarrow> Inl ArchiveError
      | Some a \<Rightarrow> Inr (h @ [a], length h))"

definition loadDocxFile :: "platform \<Rightarrow> jsfile \<Rightarrow> state \<Rightarrow> error \<times> state + state" where
  "loadDocxFile P f s =
     (case loadDocx f (zips s) of
        Inl e \<Rightarrow> Inl (e, s)
      | Inr (h1, z1) \<Rightarrow>
          (let s1 = s\<lparr>originalZip := Some z1, zips := h1\<rparr>
           in case loadDocx f h1 of
                Inl e \<Rightarrow> Inl (e, s1)
              | Inr (h2, z2) \<Rightarrow>
                  (let s2 = s1\<lparr>currentZip := Some z2, zips := h2,
                               previewHtml := generateHtmlPreview P (h2 ! z2)\<rparr>
                   in case getDocumentXml (h2 ! z1) of
                        Inl e \<Rightarrow> Inl (e, s2)
                      | Inr xml \<Rightarrow>
                          Inr (s2\<lparr>originalText := extractTextFromXml xml,
                                  currentText := extractTextFromXml xml\<rparr>))))"

definition handleFileSelected ::
  "platform \<Rightarrow> pair list \<Rightarrow> options \<Rightarrow> jsfile \<Rightarrow> state \<Rightarrow> state" where
  "handleFileSelected P inputs opts f s =
     (let s1 = s\<lparr>currentFile := Some f,
                 fileType := Some (if getFileExtension f = ''.docx'' then Docx else Txt)\<rparr>
      in case (if fileType s1 = Some Txt then loadTextFile f s1 else loadDocxFile P f s1) of
           Inl (e, s2) \<Rightarrow> s2\<lparr>lastToast := Some LoadFailed\<rparr>
         | Inr s2 \<Rightarrow>
             (case handleInputChange P inputs opts (resetUndoState s2) of
                Inl (e, s3) \<Rightarrow> s3\<lparr>lastToast := Some LoadFailed\<rparr>
              | Inr s3 \<Rightarrow> s3\<lparr>lastToast := Some FileLoaded\<rparr>))"

text \<open>The loop of applyTextReplacements over the pairs, on the local variable \<^verbatim>\<open>text\<close>.\<close>

fun applyPairsText :: "pair list \<Rightarrow> options \<Rightarrow> string \<Rightarrow> error + string" where
  "applyPairsText [] opts text = Inr text"
| "applyPairsText (p # pairs) opts text =
     (case replaceAll text (find p) (replace p) opts of
        Inl e \<Rightarrow> Inl e
      | Inr text' \<Rightarrow> applyPairsText pairs opts text')"

definition applyTextReplacements :: "pair list \<Rightarrow> options \<Rightarrow> state \<Rightarrow> error \<times> state + state" where
  "applyTextReplacements pairs opts s =
     (case applyPairsText pairs opts (currentText s) of
        Inl e \<Rightarrow> Inl (e, s)
      | Inr text \<Rightarrow> Inr (s\<lparr>currentText := text\<rparr>))"

text \<open>
  The loop of applyDocxReplacements over the pairs, on the local variable \<^verbatim>\<open>zip\<close>; an
  exception leaves the store as the earlier pairs have written it.
\<close>

fun applyPairsDocx :: "pair list \<Rightarrow> options \<Rightarrow> store \<Rightarrow> nat \<Rightarrow> error \<times> store + store \<times> nat" where
  "applyPairsDocx [] opts h zipRef = Inr (h, zipRef)"
| "applyPairsDocx (p # pairs) opts h zipRef =
     (case replaceInDocx h zipRef (find p) (replace p) opts of
        Inl e \<Rightarrow> Inl (e, h)
      | Inr (h', zipRef') \<Rightarrow> applyPairsDocx pairs opts h' zipRef')"

definition applyDocxReplacements ::
  "platform \<Rightarrow> pair list \<Rightarrow> options \<Rightarrow> state \<Rightarrow> error \<times> state + state" where
  "applyDocxReplacements P pairs opts s =
     (case currentZip s of
        None \<Rightarrow> Inl (TypeError, s)
      | Some zipRef \<Rightarrow>
          (case applyPairsDocx pairs opts (zips s) zipRef of
             Inl (e, h) \<Rightarrow> Inl (e, s\<lparr>zips := h\<rparr>)
           | Inr (h, zipRef') \<Rightarrow>
               (let s1 = s\<lparr>currentZip := Some zipRef', zips := h,
                            previewHtml := generateHtmlPreview P (h ! zipRef')\<rparr>
                in case getDocumentXml (h ! zipRef') of
                     Inl e \<Rightarrow> Inl (e, s1)
                   | Inr xml \<Rightarrow> Inr (s1\<lparr>currentText := extractTextFromXml xml\<rparr>))))"

definition handleReplaceAll :: "platform \<Rightarrow> pair list \<Rightarrow> options \<Rightarrow> state \<Rightarrow> state" where
  "handleReplaceAll P inputs opts s =
     (let pairs = getPairs inputs
      in if length pairs = 0 then s
         else
           let s1 = s\<lparr>undoText := Some (currentText s), undoZip := currentZip s\<rparr>
           in case (if fileType s1 = Some Txt
                    then applyTextReplacements pairs opts s1
                    else applyDocxReplacements P pairs opts s1) of
                Inl (e, s2) \<Rightarrow> s2\<lparr>lastToast := Some ReplaceFailed\<rparr>
              | Inr s2 \<Rightarrow>
                  (case handleInputChange P inputs opts (s2\<lparr>hasReplaced := True\<rparr>) of
                     Inl (e, s3) \<Rightarrow> s3\<lparr>lastToast := Some ReplaceFailed\<rparr>
                   | Inr s3 \<Rightarrow> s3\<lparr>lastToast := Some (Replaced (length pairs))\<rparr>))"



definition initialState :: state where
  "initialState =
     \<lparr>currentFile = None, fileType = None, originalText = [], currentText = [],
      originalZip = None, currentZip = None, previewHtml = [], undoText = None,
      undoZip = None, hasReplaced = False, zips = [], lastToast = None, matchCount = 0,
      buttons = (False, False, False)\<rparr>"

section \<open>Notions used to state the properties\<close>









text \<open>
  The occurrences of a literal \<open>P\<close> in a text \<open>T\<close>, from the left and without overlap,
  compared under \<open>canonicalize\<close> (\<open>ic\<close>: ignoring case): the indices at which they start.
\<close>

definition literalAt :: "bool \<Rightarrow> string \<Rightarrow> string \<Rightarrow> nat \<Rightarrow> bool" where
  "literalAt ic P T i =
     (i + length P \<le> length T \<and>
      map (canonicalize ic) (take (length P) (drop i T)) = map (canonicalize ic) P)"

function occurrences :: "bool \<Rightarrow> string \<Rightarrow> string \<Rightarrow> nat \<Rightarrow> nat list" where
  "occurrences ic P T i =
     (if P = [] \<or> length T < i + length P then []
      else if literalAt ic P T i then i # occurrences ic P T (i + length P)
      else occurrences ic P T (Suc i))"
  by pat_completeness auto
termination
proof (relation "measure (\<lambda>(ic, P, T, i). Suc (length T) - i)", goal_cases)
  case (2 ic P T i)
  then have "0 < length P" and "i + length P \<le> length T" by simp_all
  then have "Suc (length T) - (i + length P) < Suc (length T) - i" by linarith
  then show ?case by simp
qed auto

definition spanAt :: "string \<Rightarrow> string \<Rightarrow> nat \<Rightarrow> position" where
  "spanAt P T i = \<lparr>start = i, end' = i + length P, match = substring T i (i + length P)\<rparr>"

text \<open>Inputs of the examples.\<close>

definition plainOptions :: options where
  "plainOptions = \<lparr>isCaseSensitive = False, isWholeWord = False, isRegex = False\<rparr>"

definition regexOptions :: options where
  "regexOptions = \<lparr>isCaseSensitive = False, isWholeWord = False, isRegex = True\<rparr>"


definition txtABC :: jsfile where
  "txtABC = \<lparr>name = ''abc.txt'', fileText = ''abc'', fileArchive = None\<rparr>"

definition pairBad :: pair where "pairBad = \<lparr>find = ''('', replace = ''x''\<rparr>"

definition payloadA :: string where "payloadA = ''<w:p><w:t>a</w:t></w:p>''"

subsection \<open>Paragraphs and their text elements\<close>

text \<open>
  The serialized form of one text element, \<^verbatim>\<open><w:t\<close> attributes \<^verbatim>\<open>>\<close> text \<^verbatim>\<open></w:t>\<close>, as
  replaceInParagraph writes it, and the attribute string it writes for a non-empty text.
\<close>

definition mkTag :: "string \<Rightarrow> string \<Rightarrow> string" where
  "mkTag a t = ''<w:t'' @ a @ ''>'' @ t @ ''</w:t>''"

definition preserveAttr :: string where
  "preserveAttr = '' xml:space=\"preserve\"''"

text \<open>
  The text of a paragraph (\<open>fullText\<close> in replaceInParagraph) and its text after the
  replacement (\<open>replacedText\<close>).
\<close>

definition blockText :: "string \<Rightarrow> string" where
  "blockText paragraphXml = concat (map seg_text (collectSegments paragraphXml 0))"

definition newBlockText :: "regexp \<Rightarrow> string \<Rightarrow> string \<Rightarrow> string" where
  "newBlockText regex replacement paragraphXml = regExpReplace regex (blockText paragraphXml) replacement"

text \<open>
  The text elements of a string as the scanner of replaceInParagraph reads them, as pairs of
  attribute string and text.
\<close>

definition tagsOf :: "string \<Rightarrow> (string \<times> string) list" where
  "tagsOf s = map (\<lambda>sg. (attrs sg, seg_text sg)) (collectSegments s 0)"

text \<open>
  A pass over a string from left to right that replaces the text elements, numbered from
  \<open>k\<close> on, by the element with the attribute string and text that \<open>h\<close> gives for the number,
  the old attribute string and the old text, and copies every other character. It is the
  description of the result of the loop of replaceInParagraph, which instead cuts the string
  at the recorded positions, from the last element to the first.
\<close>

function rewriteTags :: "(nat \<Rightarrow> string \<Rightarrow> string \<Rightarrow> string \<times> string) \<Rightarrow> string \<Rightarrow> nat \<Rightarrow> string" where
  "rewriteTags h [] k = []"
| "rewriteTags h (c # r) k =
     (case matchTextTag (c # r) of
        Some (a, t) \<Rightarrow>
          mkTag (fst (h k a t)) (snd (h k a t)) @
          rewriteTags h (drop (tagLength a t) (c # r)) (Suc k)
      | None \<Rightarrow> c # rewriteTags h r k)"
  by pat_completeness auto
termination
  by (relation "measure (\<lambda>(h, s, k). length s)") (auto simp: tagLength_def)

text \<open>
  What the loop writes for element \<open>k\<close>: \<open>newText\<close> and \<open>attrs\<close> of its body. \<open>partly\<close>
  is the state of the loop when the elements from number \<open>n\<close> on have been written, and
  \<open>relabel\<close> applies a rewriting to a list of elements.
\<close>

definition rewritten :: "string \<Rightarrow> nat \<Rightarrow> string \<Rightarrow> string \<Rightarrow> string \<times> string" where
  "rewritten replacedText k a t =
     (let newText = (if k = 0 then replacedText else [])
      in (if length newText > 0 then preserveAttr else a, newText))"

definition partly :: "string \<Rightarrow> nat \<Rightarrow> nat \<Rightarrow> string \<Rightarrow> string \<Rightarrow> string \<times> string" where
  "partly replacedText n k a t = (if k < n then (a, t) else rewritten replacedText k a t)"

fun relabel :: "(nat \<Rightarrow> string \<Rightarrow> string \<Rightarrow> string \<times> string) \<Rightarrow> nat \<Rightarrow> (string \<times> string) list \<Rightarrow>
    (string \<times> string) list" where
  "relabel h k [] = []"
| "relabel h k ((a, t) # xs) = h k a t # relabel h (Suc k) xs"

text \<open>
  Example inputs: the expression buildRegex compiles for a pattern it accepts; a paragraph
  of two runs with the texts \<^verbatim>\<open>fo\<close> and \<^verbatim>\<open>o bar\<close>; a paragraph without text element; a
  paragraph whose text element has an attribute other than \<^verbatim>\<open>xml:space\<close>.
\<close>

definition regexOf :: "string \<Rightarrow> options \<Rightarrow> regexp" where
  "regexOf pattern opts = the (projr (buildRegex pattern opts))"

definition blockFoo :: string where
  "blockFoo = ''<w:p><w:r><w:t>fo</w:t></w:r><w:r><w:rPr><w:b/></w:rPr><w:t xml:space=\"preserve\">o bar</w:t></w:r></w:p>''"

definition blockBreak :: string where
  "blockBreak = ''<w:p><w:r><w:br/></w:r></w:p>''"

definition blockLang :: string where
  "blockLang = ''<w:p><w:t xml:lang=\"en\">x</w:t></w:p>''"

section \<open>The match scanner\<close>

lemma length_substring: "b \<le> length s \<Longrightarrow> length (substring s a b) = b - a"
  by (auto simp: substring_def min_def)





text \<open>
  C7. An empty find string compiles to no matcher (\<^verbatim>\<open>null\<close>), whatever the options;
  findMatches then returns no spans and the count 0, and replaceAll returns its input.
\<close>

theorem C7_empty_find_string:
  "buildRegex [] opts = Inr None \<and>
   findMatches text [] opts = Inr \<lparr>count = 0, positions = []\<rparr> \<and>
   replaceAll text [] replacement opts = Inr text"
  by (simp add: buildRegex_def findMatches_def replaceAll_def)

section \<open>The examples, evaluated\<close>

lemma ext_txtABC: "getFileExtension txtABC = ''.txt''" by code_simp
lemma getPairs_bad: "getPairs [pairBad] = [pairBad]" by code_simp
lemma findMatches_bad: "findMatches t ''('' regexOptions = Inl SyntaxError" by code_simp
lemma replaceAll_bad: "replaceAll t ''('' r regexOptions = Inl SyntaxError" by code_simp
lemma trim_paren: "trim ''('' = ''(''" by code_simp
lemma trim_a: "trim ''a'' = ''a''" by code_simp


section \<open>Literal patterns\<close>

lemma atomEscape_special:
  "c \<in> set (''.*+?^${}()|[]'' @ [backslash]) \<Longrightarrow> atomEscape c = Some (Chr c)"
  by (auto simp: atomEscape_def syntaxChars_def backslash_def)

lemma tokenize_plain:
  "c \<notin> set (''.*+?^${}()|[]'' @ [backslash]) \<Longrightarrow>
     tokenize (c # r) = consToken (TAtom (Chr c)) (tokenize r)"
  by (auto simp: backslash_def)

lemma tokenize_escaped:
  "c \<in> set (''.*+?^${}()|[]'' @ [backslash]) \<Longrightarrow>
     tokenize (backslash # c # r) = consToken (TAtom (Chr c)) (tokenize r)"
  using atomEscape_special[of c] by simp

lemma tokenize_escape_append:
  "tokenize (escapeRegexChars P @ r) =
     (case tokenize r of Inl e \<Rightarrow> Inl e | Inr ts \<Rightarrow> Inr (map (\<lambda>c. TAtom (Chr c)) P @ ts))"
proof (induction P)
  case Nil
  then show ?case by (simp add: escapeRegexChars_def split: sum.splits)
next
  case (Cons c P)
  have e: "escapeRegexChars (c # P) =
      (if c \<in> set (''.*+?^${}()|[]'' @ [backslash]) then [backslash, c] else [c]) @ escapeRegexChars P"
    by (simp add: escapeRegexChars_def)
  show ?case
  proof (cases "c \<in> set (''.*+?^${}()|[]'' @ [backslash])")
    case True
    then show ?thesis
      unfolding e using tokenize_escaped[OF True, of "escapeRegexChars P @ r"] Cons.IH
      by (simp add: consToken_def del: tokenize.simps split: sum.splits)
  next
    case False
    then show ?thesis
      unfolding e using tokenize_plain[OF False, of "escapeRegexChars P @ r"] Cons.IH
      by (simp add: consToken_def del: tokenize.simps split: sum.splits)
  qed
qed

lemma parseTokens_atoms:
  "parseTokens (map (\<lambda>c. TAtom (Chr c)) P @ ts) (Frame g alts cur # up) n =
     parseTokens ts (Frame g alts (rev (map (\<lambda>c. (Chr c, Quantifiable)) P) @ cur) # up) n"
  by (induction P arbitrary: cur) auto

lemma parse_literal:
  "parsePattern (escapeRegexChars P) = Inr (seqOf (map Chr P), 0)"
proof -
  have "tokenize (escapeRegexChars P) = Inr (map (\<lambda>c. TAtom (Chr c)) P)"
    using tokenize_escape_append[of P "[]"] by simp
  moreover have "parseTokens (map (\<lambda>c. TAtom (Chr c)) P) [Frame None [] []] 0 =
      Inr (seqOf (map Chr P), 0)"
    using parseTokens_atoms[of P "[]" None "[]" "[]" "[]" 0]
    by (simp add: closeFrame_def rev_map comp_def)
  ultimately show ?thesis by (simp add: parsePattern_def)
qed

lemma parse_literal_word:
  "parsePattern ([backslash, CHR ''b''] @ escapeRegexChars P @ [backslash, CHR ''b'']) =
     Inr (seqOf (WordB False # map Chr P @ [WordB False]), 0)"
proof -
  have b: "tokenize [backslash, CHR ''b''] = Inr [TAtom (WordB False)]"
    by (simp add: atomEscape_def consToken_def)
  have "tokenize (backslash # CHR ''b'' # escapeRegexChars P @ [backslash, CHR ''b'']) =
      consToken (TAtom (WordB False)) (tokenize (escapeRegexChars P @ [backslash, CHR ''b'']))"
    by (simp add: atomEscape_def)
  then have t: "tokenize ([backslash, CHR ''b''] @ escapeRegexChars P @ [backslash, CHR ''b'']) =
      Inr (TAtom (WordB False) # map (\<lambda>c. TAtom (Chr c)) P @ [TAtom (WordB False)])"
    using tokenize_escape_append[of P "[backslash, CHR ''b'']"] b
    by (simp add: consToken_def del: tokenize.simps)
  have "parseTokens (TAtom (WordB False) # map (\<lambda>c. TAtom (Chr c)) P @ [TAtom (WordB False)])
          [Frame None [] []] 0 =
        Inr (seqOf (WordB False # map Chr P @ [WordB False]), 0)"
    using parseTokens_atoms[of P "[TAtom (WordB False)]" None "[]" "[(WordB False, Assertion)]" "[]" 0]
    by (simp add: closeFrame_def rev_map comp_def)
  with t show ?thesis by (simp add: parsePattern_def del: tokenize.simps)
qed

lemma buildRegex_literal:
  assumes "\<not> isRegex opts" "P \<noteq> []"
  shows "buildRegex P opts =
     Inr (Some \<lparr>rxSource = (if isWholeWord opts
                             then [backslash, CHR ''b''] @ escapeRegexChars P @ [backslash, CHR ''b'']
                             else escapeRegexChars P),
               rxIgnoreCase = (\<not> isCaseSensitive opts),
               rxPattern = (if isWholeWord opts
                            then seqOf (WordB False # map Chr P @ [WordB False])
                            else seqOf (map Chr P)),
               rxGroups = 0\<rparr>)"
  using assms parse_literal[of P] parse_literal_word[of P]
  by (simp add: buildRegex_def newRegExp_def Let_def del: append.simps)

lemma ms_literal:
  "endIndex x \<le> length s \<Longrightarrow>
   ms ic s (seqOf (map Chr P)) x =
     (if literalAt ic P s (endIndex x) then [x\<lparr>endIndex := endIndex x + length P\<rparr>] else [])"
proof (induction P arbitrary: x)
  case Nil
  then show ?case by (simp add: seqOf_def literalAt_def)
next
  case (Cons c P)
  have step: "literalAt ic (c # P) s i \<longleftrightarrow>
      i < length s \<and> canonicalize ic (s ! i) = canonicalize ic c \<and> literalAt ic P s (Suc i)" for i
  proof (cases "i < length s")
    case True
    then have d: "drop i s = s ! i # drop (Suc i) s" by (simp add: Cons_nth_drop_Suc)
    show ?thesis using True by (auto simp: literalAt_def d)
  next
    case False
    then show ?thesis by (simp add: literalAt_def)
  qed
  have seq: "seqOf (map Chr (c # P)) = Seq (Chr c) (seqOf (map Chr P))"
    by (simp add: seqOf_def)
  show ?case
    unfolding seq using Cons.prems by (auto simp: Cons.IH step advance_def)
qed

lemma matchAt_literal:
  assumes "rxPattern rx = seqOf (map Chr P)" "i \<le> length s"
  shows "matchAt rx s i =
     (if literalAt (rxIgnoreCase rx) P s i
      then Some (i, \<lparr>endIndex = i + length P, captures = Map.empty\<rparr>) else None)"
  using assms ms_literal[of "\<lparr>endIndex = i, captures = Map.empty\<rparr>" s "rxIgnoreCase rx" P]
  by (simp add: matchAt_def)

lemma regExpExec_step:
  "i \<le> length s \<Longrightarrow>
     regExpExec rx s i = (case matchAt rx s i of Some r \<Rightarrow> Some r | None \<Rightarrow> regExpExec rx s (Suc i))"
  by (simp add: regExpExec_def upt_conv_Cons del: upt_Suc split: option.splits)

lemma regExpExec_beyond: "length s < i \<Longrightarrow> regExpExec rx s i = None"
  by (simp add: regExpExec_def)

lemma regExpExec_literal_short:
  assumes "rxPattern rx = seqOf (map Chr P)" "P \<noteq> []"
  shows "length s < i + length P \<Longrightarrow> regExpExec rx s i = None"
proof (induction "Suc (length s) - i" arbitrary: i)
  case 0
  then show ?case by (simp add: regExpExec_beyond)
next
  case (Suc k)
  then have i: "i \<le> length s" by simp
  from Suc.prems have "\<not> literalAt (rxIgnoreCase rx) P s i" by (simp add: literalAt_def)
  with matchAt_literal[OF assms(1) i] have m: "matchAt rx s i = None" by simp
  from Suc.hyps(2) have k: "k = Suc (length s) - Suc i" by simp
  from Suc.hyps(1)[OF k] Suc.prems have "regExpExec rx s (Suc i) = None" by simp
  with m show ?case by (simp add: regExpExec_step[OF i])
qed

lemma findLoop_literal:
  assumes "rxPattern rx = seqOf (map Chr P)" "P \<noteq> []" "rxIgnoreCase rx = ic"
  shows "findLoop rx T i = map (spanAt P T) (occurrences ic P T i)"
  using assms
proof (induction ic P T i rule: occurrences.induct)
  case (1 ic P T i)
  note rx = "1.prems"(1) and ne = "1.prems"(2) and ic = "1.prems"(3)
  show ?case
  proof (cases "length T < i + length P")
    case True
    from regExpExec_literal_short[OF rx ne True] have "findLoop rx T i = []"
      by (subst findLoop.simps) simp
    with True show ?thesis by simp
  next
    case False
    then have i: "i \<le> length T" by simp
    show ?thesis
    proof (cases "literalAt ic P T i")
      case True
      with matchAt_literal[OF rx i] ic
      have "regExpExec rx T i = Some (i, \<lparr>endIndex = i + length P, captures = Map.empty\<rparr>)"
        by (simp add: regExpExec_step[OF i])
      moreover have "length (substring T i (i + length P)) = length P"
        using False by (simp add: length_substring)
      moreover from this ne have "substring T i (i + length P) \<noteq> []" by auto
      ultimately have "findLoop rx T i = spanAt P T i # findLoop rx T (i + length P)"
        by (subst findLoop.simps) (simp add: spanAt_def Let_def del: findLoop.simps)
      with "1.IH"(1) False True ne rx ic show ?thesis by simp
    next
      case F: False
      with matchAt_literal[OF rx i] ic
      have e: "regExpExec rx T i = regExpExec rx T (Suc i)"
        by (simp add: regExpExec_step[OF i])
      have "findLoop rx T i = findLoop rx T (Suc i)"
        by (subst findLoop.simps, subst (2) findLoop.simps) (simp add: e del: findLoop.simps)
      with "1.IH"(2) False F ne rx ic show ?thesis by simp
    qed
  qed
qed


text \<open>
  C8. In literal mode (\<open>isRegex\<close> false) escapeRegexChars puts a backslash before each
  of \<^verbatim>\<open>. * + ? ^ $ { } ( ) | [ ] \\<close> and before nothing else; the pattern compiled
  from a non-empty find string is then the sequence of its characters, each matched as
  itself (between two word boundaries when \<open>isWholeWord\<close> is set), never an error.
  Without \<open>isWholeWord\<close> the spans findMatches returns are the occurrences of the find
  string in the text, from the left and without overlap, compared exactly when
  \<open>isCaseSensitive\<close> is set and under case folding otherwise.
\<close>

theorem C8_literal_mode_escaping:
  assumes "\<not> isRegex opts"
  shows "escapeRegexChars P =
           concat (map (\<lambda>c. if c \<in> {CHR ''.'', CHR ''*'', CHR ''+'', CHR ''?'', CHR ''^'', CHR ''$'',
                                      CHR ''{'', CHR ''}'', CHR ''('', CHR '')'', CHR ''|'', CHR ''['',
                                      CHR '']'', backslash}
                             then [backslash, c] else [c]) P) \<and>
         (P \<noteq> [] \<longrightarrow>
            buildRegex P opts =
              Inr (Some \<lparr>rxSource = (if isWholeWord opts
                                      then [backslash, CHR ''b''] @ escapeRegexChars P @
                                           [backslash, CHR ''b'']
                                      else escapeRegexChars P),
                        rxIgnoreCase = (\<not> isCaseSensitive opts),
                        rxPattern = (if isWholeWord opts
                                     then seqOf (WordB False # map Chr P @ [WordB False])
                                     else seqOf (map Chr P)),
                        rxGroups = 0\<rparr>)) \<and>
         (\<not> isWholeWord opts \<longrightarrow>
            findMatches T P opts =
              Inr \<lparr>count = length (occurrences (\<not> isCaseSensitive opts) P T 0),
                   positions = map (spanAt P T) (occurrences (\<not> isCaseSensitive opts) P T 0)\<rparr>)"
proof -
  have esc: "escapeRegexChars P =
           concat (map (\<lambda>c. if c \<in> {CHR ''.'', CHR ''*'', CHR ''+'', CHR ''?'', CHR ''^'', CHR ''$'',
                                      CHR ''{'', CHR ''}'', CHR ''('', CHR '')'', CHR ''|'', CHR ''['',
                                      CHR '']'', backslash}
                             then [backslash, c] else [c]) P)"
    unfolding escapeRegexChars_def by (rule arg_cong[where f = concat], rule map_cong) auto
  have scan: "findMatches T P opts =
              Inr \<lparr>count = length (occurrences (\<not> isCaseSensitive opts) P T 0),
                   positions = map (spanAt P T) (occurrences (\<not> isCaseSensitive opts) P T 0)\<rparr>"
    if ww: "\<not> isWholeWord opts"
  proof (cases "P = []")
    case True
    then show ?thesis by (simp add: findMatches_def buildRegex_def)
  next
    case False
    from buildRegex_literal[OF assms False] ww
    have b: "buildRegex P opts =
        Inr (Some \<lparr>rxSource = escapeRegexChars P, rxIgnoreCase = (\<not> isCaseSensitive opts),
                  rxPattern = seqOf (map Chr P), rxGroups = 0\<rparr>)"
      by simp
    show ?thesis
      unfolding findMatches_def b
      by (simp add: Let_def findLoop_literal[where P = P and ic = "\<not> isCaseSensitive opts"] False
          del: findLoop.simps)
  qed
  from esc scan buildRegex_literal[OF assms] show ?thesis by blast
qed

theorem C8_literal_mode_escaping_witness:
  "\<not> isRegex plainOptions \<and> ''a.b'' \<noteq> [] \<and> \<not> isWholeWord plainOptions \<and>
   escapeRegexChars ''a.b'' = [CHR ''a'', backslash, CHR ''.'', CHR ''b''] \<and>
   buildRegex ''a.b'' plainOptions =
     Inr (Some \<lparr>rxSource = [CHR ''a'', backslash, CHR ''.'', CHR ''b''], rxIgnoreCase = True,
               rxPattern = Seq (Chr (CHR ''a'')) (Seq (Chr (CHR ''.'')) (Seq (Chr (CHR ''b'')) Empty)),
               rxGroups = 0\<rparr>) \<and>
   findMatches ''a.b aXb A.B'' ''a.b'' plainOptions =
     Inr \<lparr>count = 2,
          positions = [\<lparr>start = 0, end' = 3, match = ''a.b''\<rparr>,
                       \<lparr>start = 8, end' = 11, match = ''A.B''\<rparr>]\<rparr>"
proof -
  have h: "\<not> isRegex plainOptions" by (simp add: plainOptions_def)
  have o: "occurrences (\<not> isCaseSensitive plainOptions) ''a.b'' ''a.b aXb A.B'' 0 = [0, 8]"
    by code_simp
  have e: "escapeRegexChars ''a.b'' = [CHR ''a'', backslash, CHR ''.'', CHR ''b'']" by code_simp
  have s: "map (spanAt ''a.b'' ''a.b aXb A.B'') [0, 8] =
      [\<lparr>start = 0, end' = 3, match = ''a.b''\<rparr>, \<lparr>start = 8, end' = 11, match = ''A.B''\<rparr>]"
    by code_simp
  from C8_literal_mode_escaping[OF h, of "''a.b''" "''a.b aXb A.B''"] h o e s
  show ?thesis by (simp add: plainOptions_def seqOf_def)
qed

section \<open>Pairs in sequence\<close>








section \<open>The frame of replaceInXml\<close>








section \<open>Paragraphs and their text elements\<close>

subsection \<open>The scanner on a text element\<close>

lemma length_mkTag: "length (mkTag a t) = tagLength a t"
  by (simp add: mkTag_def tagLength_def)

lemma take_eq_lit:
  assumes "take n s = l" "length l = n"
  shows "s = l @ drop n s"
  using assms by (metis append_take_drop_id)

lemma matchTextTag_SomeD:
  assumes "matchTextTag s = Some (a, t)"
  shows "s = mkTag a t @ drop (tagLength a t) s \<and> CHR ''>'' \<notin> set a \<and> CHR ''<'' \<notin> set t"
proof -
  let ?gt = "\<lambda>c. c \<noteq> CHR ''>''" and ?lt = "\<lambda>c. c \<noteq> CHR ''<''"
  from assms have o: "take 4 s = ''<w:t''"
    by (auto simp: matchTextTag_def split: if_splits)
  define r where "r = drop 4 s"
  from o have s: "s = ''<w:t'' @ r" unfolding r_def by (intro take_eq_lit) simp_all
  from assms o obtain g r2 where d: "dropWhile ?gt r = g # r2"
    and a: "a = takeWhile ?gt r" and t: "t = takeWhile ?lt r2"
    and c: "take 6 (dropWhile ?lt r2) = ''</w:t>''"
    by (auto simp: matchTextTag_def Let_def r_def split: if_splits list.splits)
  from d have g: "g = CHR ''>''" using hd_dropWhile[of ?gt r] by (metis list.sel(1) list.distinct(1))
  have r: "r = a @ CHR ''>'' # r2" using takeWhile_dropWhile_id[of ?gt r] d a g by simp
  from c have dl: "dropWhile ?lt r2 = ''</w:t>'' @ drop 6 (dropWhile ?lt r2)"
    by (intro take_eq_lit) simp_all
  have r2: "r2 = t @ ''</w:t>'' @ drop 6 (dropWhile ?lt r2)"
    using takeWhile_dropWhile_id[of ?lt r2] t dl by metis
  have sfull: "s = mkTag a t @ drop 6 (dropWhile ?lt r2)"
    unfolding mkTag_def using s r r2 by (metis append_Cons append_Nil append.assoc)
  then have "drop (tagLength a t) s = drop 6 (dropWhile ?lt r2)"
    by (metis append_eq_conv_conj length_mkTag)
  with sfull have "s = mkTag a t @ drop (tagLength a t) s" by simp
  moreover have "CHR ''>'' \<notin> set a" unfolding a by (auto dest: set_takeWhileD)
  moreover have "CHR ''<'' \<notin> set t" unfolding t by (auto dest: set_takeWhileD)
  ultimately show ?thesis by blast
qed

lemma matchTextTag_open:
  "matchTextTag (''<w:t'' @ r) =
     (case dropWhile (\<lambda>c. c \<noteq> CHR ''>'') r of
        [] \<Rightarrow> None
      | g # r2 \<Rightarrow>
          if take 6 (dropWhile (\<lambda>c. c \<noteq> CHR ''<'') r2) = ''</w:t>''
          then Some (takeWhile (\<lambda>c. c \<noteq> CHR ''>'') r, takeWhile (\<lambda>c. c \<noteq> CHR ''<'') r2)
          else None)"
proof (cases "dropWhile (\<lambda>c. c \<noteq> CHR ''>'') r")
  case Nil
  then show ?thesis by (simp add: matchTextTag_def Let_def del: dropWhile_eq_Nil_conv)
next
  case (Cons g r2)
  then show ?thesis by (simp add: matchTextTag_def Let_def del: dropWhile_eq_Nil_conv)
qed

lemma matchTextTag_mkTag:
  assumes "CHR ''>'' \<notin> set a" "CHR ''<'' \<notin> set t"
  shows "matchTextTag (mkTag a t @ x) = Some (a, t)"
proof -
  have 1: "dropWhile (\<lambda>c. c \<noteq> CHR ''>'') (a @ CHR ''>'' # t @ ''</w:t>'' @ x) = CHR ''>'' # t @ ''</w:t>'' @ x"
    using assms(1) by (subst dropWhile_append2) auto
  have 2: "takeWhile (\<lambda>c. c \<noteq> CHR ''>'') (a @ CHR ''>'' # t @ ''</w:t>'' @ x) = a"
    using assms(1) by (subst takeWhile_append2) auto
  have 3: "dropWhile (\<lambda>c. c \<noteq> CHR ''<'') (t @ ''</w:t>'' @ x) = ''</w:t>'' @ x"
    using assms(2) by (subst dropWhile_append2) auto
  have 4: "takeWhile (\<lambda>c. c \<noteq> CHR ''<'') (t @ ''</w:t>'' @ x) = t"
    using assms(2) by (subst takeWhile_append2) auto
  have "mkTag a t @ x = ''<w:t'' @ (a @ CHR ''>'' # t @ ''</w:t>'' @ x)"
    by (simp add: mkTag_def)
  then have "matchTextTag (mkTag a t @ x) =
     (case dropWhile (\<lambda>c. c \<noteq> CHR ''>'') (a @ CHR ''>'' # t @ ''</w:t>'' @ x) of
        [] \<Rightarrow> None
      | g # r2 \<Rightarrow>
          if take 6 (dropWhile (\<lambda>c. c \<noteq> CHR ''<'') r2) = ''</w:t>''
          then Some (takeWhile (\<lambda>c. c \<noteq> CHR ''>'') (a @ CHR ''>'' # t @ ''</w:t>'' @ x),
                     takeWhile (\<lambda>c. c \<noteq> CHR ''<'') r2)
          else None)"
    by (simp only: matchTextTag_open)
  also have "\<dots> = Some (a, t)"
    unfolding 1 2 by (simp only: list.case 3 4) simp
  finally show ?thesis .
qed

lemma open_prefix:
  assumes "take 4 (u @ ''<w:t'' @ y) = ''<w:t''" "u \<noteq> []"
  shows "\<exists>v. u = ''<w:t'' @ v"
proof -
  from assms(2) obtain c1 u1 where u: "u = c1 # u1" by (cases u) auto
  show ?thesis
  proof (cases u1)
    case Nil
    with assms(1) u show ?thesis by simp
  next
    case (Cons c2 u2)
    note c2 = this
    show ?thesis
    proof (cases u2)
      case Nil
      with assms(1) u c2 show ?thesis by simp
    next
      case (Cons c3 u3)
      note c3 = this
      show ?thesis
      proof (cases u3)
        case Nil
        with assms(1) u c2 c3 show ?thesis by simp
      next
        case (Cons c4 v)
        with assms(1) u c2 c3 show ?thesis by simp
      qed
    qed
  qed
qed

lemma close_nth: "0 < n \<Longrightarrow> n < 6 \<Longrightarrow> ''</w:t>'' ! n \<noteq> CHR ''<''"
  by (auto simp: numeral_eq_Suc less_Suc_eq)

lemma close_split:
  assumes "z \<noteq> []" "take 6 (z @ Y) \<noteq> ''</w:t>''" "Y' \<noteq> []" "hd Y' = CHR ''<''"
  shows "take 6 (z @ Y') \<noteq> ''</w:t>''"
proof (cases "6 \<le> length z")
  case True
  with assms(2) show ?thesis by simp
next
  case False
  show ?thesis
  proof
    assume e: "take 6 (z @ Y') = ''</w:t>''"
    from False assms(1) have n: "0 < length z" "length z < 6" by simp_all
    from assms(3) have "(z @ Y') ! length z = hd Y'" by (simp add: nth_append hd_conv_nth)
    moreover have "take 6 (z @ Y') ! length z = (z @ Y') ! length z"
      using n(2) by (intro nth_take)
    ultimately have "take 6 (z @ Y') ! length z = CHR ''<''" using assms(4) by simp
    with e close_nth[OF n] show False by simp
  qed
qed

lemma matchTextTag_gap:
  assumes N: "matchTextTag (u @ mkTag a t @ x) = None" and u: "u \<noteq> []"
    and wf: "CHR ''>'' \<notin> set a" "CHR ''<'' \<notin> set t"
  shows "matchTextTag (u @ mkTag a' t' @ x') = None"
proof (cases "take 4 (u @ mkTag a' t' @ x') = ''<w:t''")
  case False
  then show ?thesis by (simp add: matchTextTag_def)
next
  case True
  let ?gt = "\<lambda>c. c \<noteq> CHR ''>''" and ?lt = "\<lambda>c. c \<noteq> CHR ''<''"
  let ?Y = "mkTag a t @ x" and ?Y' = "mkTag a' t' @ x'"
  have Y': "?Y' = ''<w:t'' @ (a' @ ''>'' @ t' @ ''</w:t>'' @ x')" by (simp add: mkTag_def)
  from True open_prefix[of u "a' @ ''>'' @ t' @ ''</w:t>'' @ x'"] u
  obtain v where v: "u = ''<w:t'' @ v" unfolding Y' by blast
  have hd': "?Y' \<noteq> []" "hd ?Y' = CHR ''<''" by (simp_all add: mkTag_def)
  have N': "matchTextTag (''<w:t'' @ (v @ ?Y)) = None" using N v by simp
  show ?thesis
  proof (cases "CHR ''>'' \<in> set v")
    case False
    have eq: "''<w:t'' @ (v @ ?Y) = mkTag (v @ ''<w:t'' @ a) t @ x" by (simp add: mkTag_def)
    have "CHR ''>'' \<notin> set (v @ ''<w:t'' @ a)" using False wf(1) by simp
    from matchTextTag_mkTag[OF this wf(2), of x] N'[unfolded eq] show ?thesis by simp
  next
    case True
    then have dv: "dropWhile ?gt (v @ Z) = dropWhile ?gt v @ Z" for Z
      by (intro dropWhile_append1[of "CHR ''>''"]) auto
    from True have "dropWhile ?gt v \<noteq> []" by (auto simp: dropWhile_eq_Nil_conv)
    then obtain g w where gw: "dropWhile ?gt v = g # w" by (cases "dropWhile ?gt v") auto
    have o: "matchTextTag (''<w:t'' @ (v @ Z)) =
        (if take 6 (dropWhile ?lt (w @ Z)) = ''</w:t>''
         then Some (takeWhile ?gt (v @ Z), takeWhile ?lt (w @ Z)) else None)" for Z
      unfolding matchTextTag_open dv gw by simp
    from N' have orig: "take 6 (dropWhile ?lt (w @ ?Y)) \<noteq> ''</w:t>''"
      unfolding o by (simp split: if_splits)
    have new: "take 6 (dropWhile ?lt (w @ ?Y')) \<noteq> ''</w:t>''"
    proof (cases "CHR ''<'' \<in> set w")
      case True
      then have dw: "dropWhile ?lt (w @ Z) = dropWhile ?lt w @ Z" for Z
        by (intro dropWhile_append1[of "CHR ''<''"]) auto
      from True have z: "dropWhile ?lt w \<noteq> []" by (auto simp: dropWhile_eq_Nil_conv)
      from close_split[OF z orig[unfolded dw] hd'] show ?thesis unfolding dw .
    next
      case False
      then have "dropWhile ?lt (w @ ?Y') = dropWhile ?lt ?Y'"
        by (intro dropWhile_append2) auto
      also have "\<dots> = ?Y'" by (simp add: mkTag_def)
      finally show ?thesis by (simp add: mkTag_def)
    qed
    have "matchTextTag (''<w:t'' @ (v @ ?Y')) = None"
      unfolding o using new by simp
    then show ?thesis using v by simp
  qed
qed

lemma collectSegments_None:
  "s \<noteq> [] \<Longrightarrow> matchTextTag s = None \<Longrightarrow> collectSegments s off = collectSegments (tl s) (Suc off)"
  by (cases s) simp_all

lemma collectSegments_Some:
  "matchTextTag s = Some (a, t) \<Longrightarrow>
     collectSegments s off =
       \<lparr>fullMatch = take (tagLength a t) s, attrs = a, seg_text = t,
        seg_start = off, seg_end = off + tagLength a t\<rparr> #
       collectSegments (drop (tagLength a t) s) (off + tagLength a t)"
  by (cases s) (simp_all add: matchTextTag_def)

lemma scan_induct [case_names Nil Skip Tag]:
  assumes "\<And>off. P [] off"
    and "\<And>c r off. matchTextTag (c # r) = None \<Longrightarrow> P r (Suc off) \<Longrightarrow> P (c # r) off"
    and "\<And>s off a t. matchTextTag s = Some (a, t) \<Longrightarrow>
           P (drop (tagLength a t) s) (off + tagLength a t) \<Longrightarrow> P s off"
  shows "P s off"
proof (induction s off rule: collectSegments.induct)
  case (1 lastIndex)
  show ?case by (rule assms(1))
next
  case (2 c r lastIndex)
  show ?case
  proof (cases "matchTextTag (c # r)")
    case None
    from assms(2)[OF None 2(1)[OF None]] show ?thesis .
  next
    case (Some x)
    obtain a t where x: "x = (a, t)" by (cases x)
    from assms(3)[OF Some[unfolded x] 2(2)[OF Some x[symmetric]]] show ?thesis .
  qed
qed

lemma tags_induct [case_names Nil Skip Tag]:
  assumes "P []"
    and "\<And>c r. matchTextTag (c # r) = None \<Longrightarrow> P r \<Longrightarrow> P (c # r)"
    and "\<And>s a t. matchTextTag s = Some (a, t) \<Longrightarrow> P (drop (tagLength a t) s) \<Longrightarrow> P s"
  shows "P s"
  using assms by (rule scan_induct[where P = "\<lambda>s off. P s" and off = 0])

lemma rewriteTags_None:
  "matchTextTag (c # r) = None \<Longrightarrow> rewriteTags h (c # r) k = c # rewriteTags h r k"
  by simp

lemma rewriteTags_Some:
  "matchTextTag s = Some (a, t) \<Longrightarrow>
     rewriteTags h s k =
       mkTag (fst (h k a t)) (snd (h k a t)) @ rewriteTags h (drop (tagLength a t) s) (Suc k)"
  by (cases s) (simp_all add: matchTextTag_def)

lemma tags_offset:
  "map (\<lambda>sg. (attrs sg, seg_text sg)) (collectSegments s off) = tagsOf s"
proof -
  have "map (\<lambda>sg. (attrs sg, seg_text sg)) (collectSegments s off) =
        map (\<lambda>sg. (attrs sg, seg_text sg)) (collectSegments s off')" for off'
  proof (induction s off arbitrary: off' rule: scan_induct)
    case (Nil off)
    show ?case by simp
  next
    case (Skip c r off)
    from Skip(2)[of "Suc off'"] Skip(1) show ?case by simp
  next
    case (Tag s off a t)
    from Tag(2)[of "off' + tagLength a t"] show ?case
      by (simp add: collectSegments_Some[OF Tag(1)])
  qed
  then show ?thesis unfolding tagsOf_def .
qed

lemma tagsOf_None: "matchTextTag (c # r) = None \<Longrightarrow> tagsOf (c # r) = tagsOf r"
  using tags_offset[of r "Suc 0"] by (simp add: tagsOf_def)

lemma tagsOf_Some:
  "matchTextTag s = Some (a, t) \<Longrightarrow> tagsOf s = (a, t) # tagsOf (drop (tagLength a t) s)"
  using tags_offset[of "drop (tagLength a t) s" "0 + tagLength a t"]
  by (simp add: tagsOf_def collectSegments_Some)

text \<open>What the rewriting leaves in front of the first tag, and how the rest starts.\<close>

lemma rewriteTags_gap:
  "\<exists>g. (s = g \<and> rewriteTags h s k = g) \<or>
       (\<exists>a t x x'. s = g @ mkTag a t @ x \<and>
          rewriteTags h s k = g @ mkTag (fst (h k a t)) (snd (h k a t)) @ x' \<and>
          CHR ''>'' \<notin> set a \<and> CHR ''<'' \<notin> set t)"
proof (induction s arbitrary: k rule: tags_induct)
  case Nil
  show ?case by (rule exI[of _ "[]"]) simp
next
  case (Skip c r)
  from Skip(2)[of k] obtain g where g: "(r = g \<and> rewriteTags h r k = g) \<or>
       (\<exists>a t x x'. r = g @ mkTag a t @ x \<and>
          rewriteTags h r k = g @ mkTag (fst (h k a t)) (snd (h k a t)) @ x' \<and>
          CHR ''>'' \<notin> set a \<and> CHR ''<'' \<notin> set t)" by blast
  from g show ?case
  proof
    assume "r = g \<and> rewriteTags h r k = g"
    then have "r = g" "rewriteTags h r k = g" by blast+
    with rewriteTags_None[OF Skip(1), of h k]
    have "c # r = c # g \<and> rewriteTags h (c # r) k = c # g"
      by (simp del: rewriteTags.simps)
    then show ?thesis by blast
  next
    assume "\<exists>a t x x'. r = g @ mkTag a t @ x \<and>
          rewriteTags h r k = g @ mkTag (fst (h k a t)) (snd (h k a t)) @ x' \<and>
          CHR ''>'' \<notin> set a \<and> CHR ''<'' \<notin> set t"
    then obtain a t x x' where "r = g @ mkTag a t @ x"
      "rewriteTags h r k = g @ mkTag (fst (h k a t)) (snd (h k a t)) @ x'"
      "CHR ''>'' \<notin> set a" "CHR ''<'' \<notin> set t" by blast
    with rewriteTags_None[OF Skip(1), of h k]
    have "c # r = (c # g) @ mkTag a t @ x \<and>
          rewriteTags h (c # r) k = (c # g) @ mkTag (fst (h k a t)) (snd (h k a t)) @ x' \<and>
          CHR ''>'' \<notin> set a \<and> CHR ''<'' \<notin> set t"
      by (simp del: rewriteTags.simps)
    then show ?thesis by blast
  qed
next
  case (Tag s a t)
  from matchTextTag_SomeD[OF Tag(1)]
  have s: "s = [] @ mkTag a t @ drop (tagLength a t) s" and wf: "CHR ''>'' \<notin> set a" "CHR ''<'' \<notin> set t"
    by simp_all
  have r: "rewriteTags h s k = [] @ mkTag (fst (h k a t)) (snd (h k a t)) @
      rewriteTags h (drop (tagLength a t) s) (Suc k)"
    by (simp add: rewriteTags_Some[OF Tag(1)])
  from s r wf show ?case by blast
qed

lemma tagsOf_Nil: "tagsOf [] = []"
  by (simp add: tagsOf_def)

lemma tagsOf_rewriteTags:
  assumes wf: "\<And>k a t. CHR ''>'' \<notin> set a \<Longrightarrow> CHR ''<'' \<notin> set t \<Longrightarrow>
                 CHR ''>'' \<notin> set (fst (h k a t)) \<and> CHR ''<'' \<notin> set (snd (h k a t))"
  shows "tagsOf (rewriteTags h s k) = relabel h k (tagsOf s)"
proof (induction s arbitrary: k rule: tags_induct)
  case Nil
  show ?case by (simp add: tagsOf_Nil)
next
  case (Skip c r)
  have N: "matchTextTag (c # rewriteTags h r k) = None"
  proof -
    from rewriteTags_gap[of r h k] obtain g where g: "(r = g \<and> rewriteTags h r k = g) \<or>
       (\<exists>a t x x'. r = g @ mkTag a t @ x \<and>
          rewriteTags h r k = g @ mkTag (fst (h k a t)) (snd (h k a t)) @ x' \<and>
          CHR ''>'' \<notin> set a \<and> CHR ''<'' \<notin> set t)" by blast
    from g show ?thesis
    proof
      assume "r = g \<and> rewriteTags h r k = g"
      then have "rewriteTags h r k = r" by blast
      with Skip(1) show ?thesis by simp
    next
      assume "\<exists>a t x x'. r = g @ mkTag a t @ x \<and>
          rewriteTags h r k = g @ mkTag (fst (h k a t)) (snd (h k a t)) @ x' \<and>
          CHR ''>'' \<notin> set a \<and> CHR ''<'' \<notin> set t"
      then obtain a t x x' where r: "r = g @ mkTag a t @ x"
        and o: "rewriteTags h r k = g @ mkTag (fst (h k a t)) (snd (h k a t)) @ x'"
        and w: "CHR ''>'' \<notin> set a" "CHR ''<'' \<notin> set t" by blast
      from Skip(1) r have "matchTextTag ((c # g) @ mkTag a t @ x) = None" by simp
      from matchTextTag_gap[OF this _ w, of "fst (h k a t)" "snd (h k a t)" x']
      show ?thesis unfolding o by simp
    qed
  qed
  have "tagsOf (rewriteTags h (c # r) k) = tagsOf (c # rewriteTags h r k)"
    by (simp only: rewriteTags_None[OF Skip(1)])
  also have "\<dots> = tagsOf (rewriteTags h r k)" by (rule tagsOf_None[OF N])
  also have "\<dots> = relabel h k (tagsOf r)" by (rule Skip(2))
  also have "\<dots> = relabel h k (tagsOf (c # r))" by (simp only: tagsOf_None[OF Skip(1)])
  finally show ?case .
next
  case (Tag s a t)
  let ?a = "fst (h k a t)" and ?t = "snd (h k a t)"
  let ?X = "rewriteTags h (drop (tagLength a t) s) (Suc k)"
  from matchTextTag_SomeD[OF Tag(1)] have w: "CHR ''>'' \<notin> set a" "CHR ''<'' \<notin> set t" by simp_all
  from wf[OF w, of k] have w': "CHR ''>'' \<notin> set ?a" "CHR ''<'' \<notin> set ?t" by simp_all
  have m: "matchTextTag (mkTag ?a ?t @ ?X) = Some (?a, ?t)" by (rule matchTextTag_mkTag[OF w'])
  have d: "drop (tagLength ?a ?t) (mkTag ?a ?t @ ?X) = ?X"
    by (simp add: length_mkTag[symmetric])
  have "tagsOf (rewriteTags h s k) = tagsOf (mkTag ?a ?t @ ?X)"
    by (simp only: rewriteTags_Some[OF Tag(1)])
  also have "\<dots> = (?a, ?t) # tagsOf ?X" by (simp only: tagsOf_Some[OF m] d)
  also have "\<dots> = h k a t # relabel h (Suc k) (tagsOf (drop (tagLength a t) s))"
    by (simp only: Tag(2) prod.collapse)
  also have "\<dots> = relabel h k (tagsOf s)" by (simp only: tagsOf_Some[OF Tag(1)] relabel.simps)
  finally show ?case .
qed

lemma seg_bounds:
  "sg \<in> set (collectSegments s off) \<Longrightarrow>
     off \<le> seg_start sg \<and> seg_end sg = seg_start sg + tagLength (attrs sg) (seg_text sg)"
proof (induction s off rule: scan_induct)
  case (Nil off)
  then show ?case by simp
next
  case (Skip c r off)
  then show ?case by auto
next
  case (Tag s off a t)
  then show ?case by (auto simp: collectSegments_Some[OF Tag(1)])
qed

lemma rewriteTags_cong:
  "(\<And>j a t. k \<le> j \<Longrightarrow> h j a t = h' j a t) \<Longrightarrow> rewriteTags h s k = rewriteTags h' s k"
proof (induction s arbitrary: k rule: tags_induct)
  case Nil
  show ?case by simp
next
  case (Skip c r)
  from Skip(2)[of k] Skip(3) show ?case by (simp add: rewriteTags_None[OF Skip(1)] del: rewriteTags.simps)
next
  case (Tag s a t)
  have "rewriteTags h (drop (tagLength a t) s) (Suc k) = rewriteTags h' (drop (tagLength a t) s) (Suc k)"
    by (rule Tag(2)) (simp add: Tag(3))
  with Tag(3)[of k a t] show ?case by (simp add: rewriteTags_Some[OF Tag(1)])
qed

lemma redistribute_step:
  assumes "i < length (collectSegments s off)"
  shows "take (seg_start (collectSegments s off ! i) - off) (rewriteTags (partly rt (Suc (k + i))) s k) @
         mkTag (fst (rewritten rt (k + i) (attrs (collectSegments s off ! i))
                        (seg_text (collectSegments s off ! i))))
               (snd (rewritten rt (k + i) (attrs (collectSegments s off ! i))
                        (seg_text (collectSegments s off ! i)))) @
         drop (seg_end (collectSegments s off ! i) - off) (rewriteTags (partly rt (Suc (k + i))) s k) =
         rewriteTags (partly rt (k + i)) s k"
  using assms
proof (induction s off arbitrary: i k rule: scan_induct)
  case (Nil off)
  then show ?case by simp
next
  case (Skip c r off)
  let ?sg = "collectSegments r (Suc off) ! i"
  have cs: "collectSegments (c # r) off = collectSegments r (Suc off)"
    using Skip(1) by simp
  from Skip(3) cs have i: "i < length (collectSegments r (Suc off))" by simp
  then have "?sg \<in> set (collectSegments r (Suc off))" by simp
  from seg_bounds[OF this] have ge: "Suc off \<le> seg_start ?sg" and ge2: "Suc off \<le> seg_end ?sg"
    by simp_all
  from ge have t: "take (seg_start ?sg - off) (c # R) = c # take (seg_start ?sg - Suc off) R" for R
    by (simp add: take_Cons')
  from ge2 have d: "drop (seg_end ?sg - off) (c # R) = drop (seg_end ?sg - Suc off) R" for R
    by (simp add: drop_Cons')
  show ?case
    unfolding cs rewriteTags_None[OF Skip(1)] t d
    using Skip(2)[OF i, of k] by simp
next
  case (Tag s off a t)
  let ?n = "tagLength a t"
  let ?rest = "collectSegments (drop ?n s) (off + ?n)"
  note cs = collectSegments_Some[OF Tag(1), of off]
  show ?case
  proof (cases i)
    case 0
    have same: "rewriteTags (partly rt (Suc k)) (drop ?n s) (Suc k) =
                rewriteTags (partly rt k) (drop ?n s) (Suc k)"
      by (rule rewriteTags_cong) (simp add: partly_def)
    have R: "rewriteTags (partly rt (Suc k)) s k =
             mkTag a t @ rewriteTags (partly rt (Suc k)) (drop ?n s) (Suc k)"
      by (simp add: rewriteTags_Some[OF Tag(1)] partly_def)
    have L: "rewriteTags (partly rt k) s k =
             mkTag (fst (rewritten rt k a t)) (snd (rewritten rt k a t)) @
             rewriteTags (partly rt k) (drop ?n s) (Suc k)"
      by (simp add: rewriteTags_Some[OF Tag(1)] partly_def)
    show ?thesis
      unfolding 0 cs by (simp add: R L same length_mkTag del: rewriteTags.simps)
  next
    case (Suc i')
    let ?sg = "?rest ! i'"
    from Tag(3) Suc cs have i': "i' < length ?rest" by simp
    then have "?sg \<in> set ?rest" by simp
    from seg_bounds[OF this]
    have ge: "off + ?n \<le> seg_start ?sg" and ge2: "off + ?n \<le> seg_end ?sg" by simp_all
    have R: "rewriteTags (partly rt (Suc (k + Suc i'))) s k =
             mkTag a t @ rewriteTags (partly rt (Suc (Suc k + i'))) (drop ?n s) (Suc k)"
      by (simp add: rewriteTags_Some[OF Tag(1)] partly_def)
    have L: "rewriteTags (partly rt (k + Suc i')) s k =
             mkTag a t @ rewriteTags (partly rt (Suc k + i')) (drop ?n s) (Suc k)"
      by (simp add: rewriteTags_Some[OF Tag(1)] partly_def)
    from ge have t: "take (seg_start ?sg - off) (mkTag a t @ X) =
                     mkTag a t @ take (seg_start ?sg - (off + ?n)) X" for X
      by (simp add: length_mkTag)
    from ge2 have d: "drop (seg_end ?sg - off) (mkTag a t @ X) =
                      drop (seg_end ?sg - (off + ?n)) X" for X
      by (simp add: length_mkTag)
    have nth: "collectSegments s off ! Suc i' = ?sg" unfolding cs by simp
    have k: "k + Suc i' = Suc k + i'" by simp
    show ?thesis
      unfolding Suc nth R L t d
      using Tag(2)[OF i', of "Suc k"] by (simp only: k append_assoc)
  qed
qed

lemma rewriteTags_partly_all:
  "rewriteTags (partly rt (k + length (collectSegments s off))) s k = s"
proof (induction s off arbitrary: k rule: scan_induct)
  case (Nil off)
  show ?case by simp
next
  case (Skip c r off)
  from Skip(2)[of k] Skip(1) show ?case by simp
next
  case (Tag s off a t)
  have "rewriteTags (partly rt (k + length (collectSegments s off))) s k =
        mkTag a t @ rewriteTags (partly rt (Suc k + length (collectSegments (drop (tagLength a t) s) (off + tagLength a t))))
                      (drop (tagLength a t) s) (Suc k)"
    by (simp add: rewriteTags_Some[OF Tag(1)] collectSegments_Some[OF Tag(1)] partly_def)
  also have "\<dots> = mkTag a t @ drop (tagLength a t) s" by (simp only: Tag(2))
  also have "\<dots> = s" using matchTextTag_SomeD[OF Tag(1)] by simp
  finally show ?case .
qed

lemma redistribute_rewrite:
  "n \<le> length (collectSegments p 0) \<Longrightarrow>
     redistribute (collectSegments p 0) rt n (rewriteTags (partly rt n) p 0) =
     rewriteTags (rewritten rt) p 0"
proof (induction n)
  case 0
  have "rewriteTags (partly rt 0) p 0 = rewriteTags (rewritten rt) p 0"
    by (rule rewriteTags_cong) (simp add: partly_def)
  then show ?case by simp
next
  case (Suc i)
  then have i: "i < length (collectSegments p 0)" by simp
  let ?sg = "collectSegments p 0 ! i"
  let ?R = "rewriteTags (partly rt (Suc i)) p 0"
  have tag: "''<w:t'' @ (if 0 < length (if i = 0 then rt else []) then '' xml:space=\"preserve\"'' else attrs ?sg) @
             ''>'' @ (if i = 0 then rt else []) @ ''</w:t>'' =
             mkTag (fst (rewritten rt i (attrs ?sg) (seg_text ?sg))) (snd (rewritten rt i (attrs ?sg) (seg_text ?sg)))"
    by (simp add: mkTag_def rewritten_def preserveAttr_def Let_def)
  have "redistribute (collectSegments p 0) rt (Suc i) ?R =
        redistribute (collectSegments p 0) rt i
          (take (seg_start ?sg) ?R @
           mkTag (fst (rewritten rt i (attrs ?sg) (seg_text ?sg))) (snd (rewritten rt i (attrs ?sg) (seg_text ?sg))) @
           drop (seg_end ?sg) ?R)"
    unfolding redistribute.simps Let_def tag ..
  also have "\<dots> = redistribute (collectSegments p 0) rt i (rewriteTags (partly rt i) p 0)"
    using redistribute_step[OF i, of rt 0] by simp
  also have "\<dots> = rewriteTags (rewritten rt) p 0" using Suc by simp
  finally show ?case .
qed

lemma replaceInParagraph_rewrite:
  "replaceInParagraph p rx repl =
     (if collectSegments p 0 = [] \<or> newBlockText rx repl p = blockText p then p
      else rewriteTags (rewritten (newBlockText rx repl p)) p 0)"
proof -
  have "redistribute (collectSegments p 0) rt (length (collectSegments p 0)) p =
        rewriteTags (rewritten rt) p 0" for rt
    using redistribute_rewrite[of "length (collectSegments p 0)" p rt]
      rewriteTags_partly_all[of rt 0 p 0] by simp
  then show ?thesis
    by (auto simp: replaceInParagraph_def Let_def newBlockText_def blockText_def)
qed

lemma relabel_rewritten_Suc:
  "relabel (rewritten rt) (Suc k) xs = map (\<lambda>(a, t). (a, [])) xs"
  by (induction xs arbitrary: k) (auto simp: rewritten_def)

lemma relabel_rewritten:
  "xs \<noteq> [] \<Longrightarrow> relabel (rewritten rt) 0 xs =
     (if rt \<noteq> [] then preserveAttr else fst (hd xs), rt) # map (\<lambda>(a, t). (a, [])) (tl xs)"
  by (cases xs) (auto simp: relabel_rewritten_Suc rewritten_def)

lemma tagsOf_replaceInParagraph:
  assumes "collectSegments p 0 \<noteq> []" and "newBlockText rx repl p \<noteq> blockText p"
    and "CHR ''<'' \<notin> set (newBlockText rx repl p)"
  shows "tagsOf (replaceInParagraph p rx repl) =
         (if newBlockText rx repl p \<noteq> [] then preserveAttr else fst (hd (tagsOf p)), newBlockText rx repl p) #
         map (\<lambda>(a, t). (a, [])) (tl (tagsOf p))"
proof -
  let ?rt = "newBlockText rx repl p"
  have wf: "CHR ''>'' \<notin> set (fst (rewritten ?rt k a t)) \<and> CHR ''<'' \<notin> set (snd (rewritten ?rt k a t))"
    if "CHR ''>'' \<notin> set a" "CHR ''<'' \<notin> set t" for k a t
    using that assms(3) by (auto simp: rewritten_def preserveAttr_def Let_def)
  from assms(1) have ne: "tagsOf p \<noteq> []" by (simp add: tagsOf_def)
  have "tagsOf (replaceInParagraph p rx repl) = tagsOf (rewriteTags (rewritten ?rt) p 0)"
    using assms(1,2) by (simp add: replaceInParagraph_rewrite)
  also have "\<dots> = relabel (rewritten ?rt) 0 (tagsOf p)"
    by (rule tagsOf_rewriteTags) (rule wf)
  finally show ?thesis by (simp only: relabel_rewritten[OF ne])
qed

subsection \<open>The examples\<close>

lemma regexOf_foo: "buildRegex ''foo'' plainOptions = Inr (Some (regexOf ''foo'' plainOptions))" by code_simp
lemma regexOf_star: "buildRegex ''a*'' regexOptions = Inr (Some (regexOf ''a*'' regexOptions))" by code_simp
lemma regexOf_a: "buildRegex ''a'' plainOptions = Inr (Some (regexOf ''a'' plainOptions))" by code_simp
lemma regexOf_x: "buildRegex ''x'' plainOptions = Inr (Some (regexOf ''x'' plainOptions))" by code_simp

lemma blockFoo_segments: "length (collectSegments blockFoo 0) = 2" by code_simp
lemma blockFoo_attrs: "map attrs (collectSegments blockFoo 0) = [[], preserveAttr]" by code_simp
lemma blockFoo_text: "blockText blockFoo = ''foo bar''" by code_simp
lemma blockFoo_new: "newBlockText (regexOf ''foo'' plainOptions) ''baz'' blockFoo = ''baz bar''" by code_simp
lemma payloadA_text: "blockText payloadA = ''a''" by code_simp
lemma payloadA_new: "newBlockText (regexOf ''foo'' plainOptions) ''baz'' payloadA = ''a''" by code_simp

subsection \<open>The properties\<close>

text \<open>
  C4, amended. A paragraph is returned as it is when it has no text element or when the
  replacement leaves its text unchanged. Otherwise the result is the paragraph with its
  first text element replaced by one holding the whole replaced text and every other text
  element replaced by one with empty text, everything else being copied. When the replaced
  text has no \<^verbatim>\<open><\<close>, the text elements read back from the result have these texts, so
  that their concatenation is the replaced text.
\<close>

theorem C4_block_postcondition:
  "(collectSegments p 0 = [] \<or> newBlockText rx repl p = blockText p \<longrightarrow>
      replaceInParagraph p rx repl = p) \<and>
   (collectSegments p 0 \<noteq> [] \<and> newBlockText rx repl p \<noteq> blockText p \<longrightarrow>
      replaceInParagraph p rx repl =
        rewriteTags (\<lambda>k a t. (if k = 0 \<and> newBlockText rx repl p \<noteq> [] then preserveAttr else a,
                                 if k = 0 then newBlockText rx repl p else [])) p 0 \<and>
      (CHR ''<'' \<notin> set (newBlockText rx repl p) \<longrightarrow>
         map seg_text (collectSegments (replaceInParagraph p rx repl) 0) =
           newBlockText rx repl p # replicate (length (collectSegments p 0) - 1) [] \<and>
         blockText (replaceInParagraph p rx repl) = newBlockText rx repl p))"
proof (intro conjI impI)
  assume "collectSegments p 0 = [] \<or> newBlockText rx repl p = blockText p"
  then show "replaceInParagraph p rx repl = p" by (simp add: replaceInParagraph_rewrite)
next
  assume a: "collectSegments p 0 \<noteq> [] \<and> newBlockText rx repl p \<noteq> blockText p"
  have "rewritten (newBlockText rx repl p) =
        (\<lambda>k a t. (if k = 0 \<and> newBlockText rx repl p \<noteq> [] then preserveAttr else a,
                   if k = 0 then newBlockText rx repl p else []))"
    by (intro ext) (simp add: rewritten_def)
  with a show "replaceInParagraph p rx repl =
        rewriteTags (\<lambda>k a t. (if k = 0 \<and> newBlockText rx repl p \<noteq> [] then preserveAttr else a,
                                 if k = 0 then newBlockText rx repl p else [])) p 0"
    by (simp add: replaceInParagraph_rewrite)
next
  assume a: "collectSegments p 0 \<noteq> [] \<and> newBlockText rx repl p \<noteq> blockText p"
    and lt: "CHR ''<'' \<notin> set (newBlockText rx repl p)"
  from a have ne: "tagsOf p \<noteq> []" by (simp add: tagsOf_def)
  have len: "length (tl (tagsOf p)) = length (collectSegments p 0) - 1" by (simp add: tagsOf_def)
  have "map seg_text (collectSegments (replaceInParagraph p rx repl) 0) =
        map snd (tagsOf (replaceInParagraph p rx repl))"
    by (simp add: tagsOf_def comp_def)
  also have "\<dots> = newBlockText rx repl p # map (\<lambda>x. []) (tl (tagsOf p))"
    using a lt by (simp add: tagsOf_replaceInParagraph comp_def case_prod_beta)
  also have "\<dots> = newBlockText rx repl p # replicate (length (collectSegments p 0) - 1) []"
    by (simp add: map_replicate_const tagsOf_def)
  finally show t: "map seg_text (collectSegments (replaceInParagraph p rx repl) 0) =
      newBlockText rx repl p # replicate (length (collectSegments p 0) - 1) []" .
  show "blockText (replaceInParagraph p rx repl) = newBlockText rx repl p"
    unfolding blockText_def t by simp
qed

text \<open>
  The theorem at the paragraph with the texts \<^verbatim>\<open>fo\<close> and \<^verbatim>\<open>o bar\<close>, \<^verbatim>\<open>foo\<close> replaced by
  \<^verbatim>\<open>baz\<close>: the first element reads \<^verbatim>\<open>baz bar\<close>, the second is empty. At a paragraph that
  does not contain \<^verbatim>\<open>foo\<close> the paragraph is returned.
\<close>

theorem C4_block_postcondition_witness:
  "map seg_text (collectSegments (replaceInParagraph blockFoo (regexOf ''foo'' plainOptions) ''baz'') 0) =
     [''baz bar'', []] \<and>
   blockText (replaceInParagraph blockFoo (regexOf ''foo'' plainOptions) ''baz'') = ''baz bar'' \<and>
   replaceInParagraph payloadA (regexOf ''foo'' plainOptions) ''baz'' = payloadA"
proof -
  let ?rx = "regexOf ''foo'' plainOptions"
  have ne: "collectSegments blockFoo 0 \<noteq> []" using blockFoo_segments by auto
  have changed: "newBlockText ?rx ''baz'' blockFoo \<noteq> blockText blockFoo"
    by (simp add: blockFoo_text blockFoo_new)
  have lt: "CHR ''<'' \<notin> set (newBlockText ?rx ''baz'' blockFoo)"
    by (simp add: blockFoo_new)
  have same: "newBlockText ?rx ''baz'' payloadA = blockText payloadA"
    by (simp add: payloadA_text payloadA_new)
  from C4_block_postcondition[of blockFoo ?rx "''baz''"] ne changed lt
  have "map seg_text (collectSegments (replaceInParagraph blockFoo ?rx ''baz'') 0) =
          newBlockText ?rx ''baz'' blockFoo # replicate (length (collectSegments blockFoo 0) - 1) [] \<and>
        blockText (replaceInParagraph blockFoo ?rx ''baz'') = newBlockText ?rx ''baz'' blockFoo"
    by blast
  moreover from C4_block_postcondition[of payloadA ?rx "''baz''"] same
  have "replaceInParagraph payloadA ?rx ''baz'' = payloadA" by blast
  ultimately show ?thesis by (simp add: blockFoo_segments blockFoo_new)
qed

text \<open>
  C4 as stated fails at two inputs. A paragraph without text element, with the pattern
  \<^verbatim>\<open>a*\<close> in regex mode and the replacement \<^verbatim>\<open>X\<close>: the replaced text \<^verbatim>\<open>X\<close> differs from the
  empty text of the paragraph, and the paragraph is returned as it is (the early return on
  \<^verbatim>\<open>segments.length === 0\<close>), so that no text element holds \<^verbatim>\<open>X\<close>. The paragraph with the
  text \<^verbatim>\<open>a\<close>, the pattern \<^verbatim>\<open>a\<close> and the replacement \<^verbatim>\<open><\<close>: the text is written without
  escaping, and the scanner reads no text element from the result.
\<close>

theorem C4_claimed_postcondition_fails:
  "newBlockText (regexOf ''a*'' regexOptions) ''X'' blockBreak = ''X'' \<and>
   blockText blockBreak = [] \<and>
   replaceInParagraph blockBreak (regexOf ''a*'' regexOptions) ''X'' = blockBreak \<and>
   blockText (replaceInParagraph blockBreak (regexOf ''a*'' regexOptions) ''X'') \<noteq>
     newBlockText (regexOf ''a*'' regexOptions) ''X'' blockBreak \<and>
   newBlockText (regexOf ''a'' plainOptions) ''<'' payloadA = ''<'' \<and>
   blockText payloadA = ''a'' \<and>
   replaceInParagraph payloadA (regexOf ''a'' plainOptions) ''<'' =
     ''<w:p><w:t xml:space=\"preserve\"><</w:t></w:p>'' \<and>
   collectSegments (replaceInParagraph payloadA (regexOf ''a'' plainOptions) ''<'') 0 = [] \<and>
   blockText (replaceInParagraph payloadA (regexOf ''a'' plainOptions) ''<'') \<noteq>
     newBlockText (regexOf ''a'' plainOptions) ''<'' payloadA"
  by code_simp

text \<open>
  C5, amended. A paragraph that is returned as it is keeps the attribute strings of its
  text elements. In a paragraph that is rewritten (the replaced text having no \<^verbatim>\<open><\<close>), the
  first text element has exactly the attribute string \<^verbatim>\<open> xml:space="preserve"\<close> when the
  replaced text is non-empty and its own attribute string otherwise; every other text element
  keeps its attribute string; hence every text element of the result with a non-empty text has
  the attribute string \<^verbatim>\<open> xml:space="preserve"\<close>.
\<close>

theorem C5_fragment_attributes:
  "(collectSegments p 0 = [] \<or> newBlockText rx repl p = blockText p \<longrightarrow>
      map attrs (collectSegments (replaceInParagraph p rx repl) 0) = map attrs (collectSegments p 0)) \<and>
   (collectSegments p 0 \<noteq> [] \<and> newBlockText rx repl p \<noteq> blockText p \<and>
    CHR ''<'' \<notin> set (newBlockText rx repl p) \<longrightarrow>
      map attrs (collectSegments (replaceInParagraph p rx repl) 0) =
        (if newBlockText rx repl p \<noteq> [] then preserveAttr else attrs (hd (collectSegments p 0))) #
        map attrs (tl (collectSegments p 0)) \<and>
      list_all (\<lambda>sg. seg_text sg = [] \<or> attrs sg = preserveAttr)
        (collectSegments (replaceInParagraph p rx repl) 0))"
proof (intro conjI impI)
  assume "collectSegments p 0 = [] \<or> newBlockText rx repl p = blockText p"
  then show "map attrs (collectSegments (replaceInParagraph p rx repl) 0) = map attrs (collectSegments p 0)"
    by (simp add: replaceInParagraph_rewrite)
next
  assume a: "collectSegments p 0 \<noteq> [] \<and> newBlockText rx repl p \<noteq> blockText p \<and>
    CHR ''<'' \<notin> set (newBlockText rx repl p)"
  let ?out = "replaceInParagraph p rx repl"
  let ?rt = "newBlockText rx repl p"
  from a have tags: "tagsOf ?out =
      (if ?rt \<noteq> [] then preserveAttr else fst (hd (tagsOf p)), ?rt) # map (\<lambda>(a, t). (a, [])) (tl (tagsOf p))"
    by (simp add: tagsOf_replaceInParagraph)
  have "map attrs (collectSegments ?out 0) = map fst (tagsOf ?out)"
    by (simp add: tagsOf_def comp_def)
  also have "\<dots> = (if ?rt \<noteq> [] then preserveAttr else fst (hd (tagsOf p))) # map fst (tl (tagsOf p))"
    unfolding tags by (simp add: comp_def case_prod_beta)
  also have "\<dots> = (if ?rt \<noteq> [] then preserveAttr else attrs (hd (collectSegments p 0))) #
                    map attrs (tl (collectSegments p 0))"
    using a by (simp add: tagsOf_def hd_map map_tl comp_def)
  finally show "map attrs (collectSegments ?out 0) =
      (if ?rt \<noteq> [] then preserveAttr else attrs (hd (collectSegments p 0))) #
      map attrs (tl (collectSegments p 0))" .
  have "list_all (\<lambda>(a, t). t = [] \<or> a = preserveAttr) (tagsOf ?out)"
    unfolding tags by (simp add: list_all_iff case_prod_beta)
  then show "list_all (\<lambda>sg. seg_text sg = [] \<or> attrs sg = preserveAttr) (collectSegments ?out 0)"
    by (simp add: tagsOf_def list_all_iff)
qed

text \<open>
  The theorem at the paragraph with the texts \<^verbatim>\<open>fo\<close> and \<^verbatim>\<open>o bar\<close>: the first element, which
  had no attribute, has \<^verbatim>\<open> xml:space="preserve"\<close>, and the second keeps its own. At a
  paragraph that does not contain \<^verbatim>\<open>foo\<close> the attribute strings are the old ones.
\<close>

theorem C5_fragment_attributes_witness:
  "map attrs (collectSegments (replaceInParagraph blockFoo (regexOf ''foo'' plainOptions) ''baz'') 0) =
     [preserveAttr, preserveAttr] \<and>
   map attrs (collectSegments (replaceInParagraph payloadA (regexOf ''foo'' plainOptions) ''baz'') 0) = [[]]"
proof -
  let ?rx = "regexOf ''foo'' plainOptions"
  have ne: "collectSegments blockFoo 0 \<noteq> []" using blockFoo_segments by auto
  have changed: "newBlockText ?rx ''baz'' blockFoo \<noteq> blockText blockFoo"
    by (simp add: blockFoo_text blockFoo_new)
  have lt: "CHR ''<'' \<notin> set (newBlockText ?rx ''baz'' blockFoo)"
    by (simp add: blockFoo_new)
  have same: "newBlockText ?rx ''baz'' payloadA = blockText payloadA"
    by (simp add: payloadA_text payloadA_new)
  have tl: "map attrs (tl (collectSegments blockFoo 0)) = [preserveAttr]"
    using blockFoo_attrs by (simp add: map_tl)
  have pa: "map attrs (collectSegments payloadA 0) = [[]]" by code_simp
  from C5_fragment_attributes[of blockFoo ?rx "''baz''"] ne changed lt
  have "map attrs (collectSegments (replaceInParagraph blockFoo ?rx ''baz'') 0) =
          (if newBlockText ?rx ''baz'' blockFoo \<noteq> [] then preserveAttr
           else attrs (hd (collectSegments blockFoo 0))) #
          map attrs (tl (collectSegments blockFoo 0))"
    by blast
  moreover from C5_fragment_attributes[of payloadA ?rx "''baz''"] same
  have "map attrs (collectSegments (replaceInParagraph payloadA ?rx ''baz'') 0) =
        map attrs (collectSegments payloadA 0)" by blast
  ultimately show ?thesis by (simp add: tl pa blockFoo_new)
qed

text \<open>
  C5 as stated fails at a text element with the attribute \<^verbatim>\<open>xml:lang="en"\<close> and the text
  \<^verbatim>\<open>x\<close>, \<^verbatim>\<open>x\<close> replaced by \<^verbatim>\<open>y\<close>: the element of the result has the attribute string
  \<^verbatim>\<open> xml:space="preserve"\<close> alone.
\<close>

theorem C5_attributes_replaced:
  "map attrs (collectSegments blockLang 0) = ['' xml:lang=\"en\"''] \<and>
   map seg_text (collectSegments blockLang 0) = [''x''] \<and>
   replaceInParagraph blockLang (regexOf ''x'' plainOptions) ''y'' =
     ''<w:p><w:t xml:space=\"preserve\">y</w:t></w:p>'' \<and>
   map attrs (collectSegments (replaceInParagraph blockLang (regexOf ''x'' plainOptions) ''y'') 0) =
     ['' xml:space=\"preserve\"'']"
  by code_simp

section \<open>Undo, failure and the preview\<close>














lemma loaded_txtABC:
  "handleFileSelected P [] opts txtABC initialState =
     initialState\<lparr>currentFile := Some txtABC, fileType := Some Txt,
                  originalText := ''abc'', currentText := ''abc'', lastToast := Some FileLoaded\<rparr>"
  by (simp add: handleFileSelected_def ext_txtABC loadTextFile_def txtABC_def[THEN arg_cong[where f=fileText]]
      resetUndoState_def handleInputChange_def initialState_def getPairs_def renderTextPreview_def Let_def)


text \<open>
  C3, at a plain-text document \<^verbatim>\<open>abc\<close> and the find string \<^verbatim>\<open>(\<close> in regex mode. The
  pattern does not compile (a SyntaxError). Replace-all catches the error, shows the
  failure toast and replaces nothing. handleInputChange, the handler of every edit of the
  inputs and options, has no handler for it: the error leaves it uncaught, with no
  toast and the preview, the count and the buttons not updated.
\<close>

theorem C3_preview_lets_syntax_error_escape:
  "(let t0 = handleFileSelected P [] regexOptions txtABC initialState;
        t1 = handleReplaceAll P [pairBad] regexOptions t0
    in currentText t0 = ''abc'' \<and> lastToast t0 = Some FileLoaded \<and>
       buildRegex ''('' regexOptions = Inl SyntaxError \<and>
       handleInputChange P [pairBad] regexOptions t0 = Inl (SyntaxError, t0) \<and>
       lastToast t1 = Some ReplaceFailed \<and> currentText t1 = ''abc'')"
proof -
  define t0 where "t0 = handleFileSelected P [] regexOptions txtABC initialState"
  have t0: "currentText t0 = ''abc''" "fileType t0 = Some Txt" "currentFile t0 = Some txtABC"
    "lastToast t0 = Some FileLoaded"
    by (simp_all add: t0_def loaded_txtABC)
  have br: "buildRegex ''('' regexOptions = Inl SyntaxError" by code_simp
  have hic: "handleInputChange P [pairBad] regexOptions t0 = Inl (SyntaxError, t0)"
    by (simp add: handleInputChange_def getPairs_bad t0 Let_def renderTextPreview_def
        pairBad_def[THEN arg_cong[where f=find]] trim_paren findMatches_bad)
  have t1: "handleReplaceAll P [pairBad] regexOptions t0
      = t0\<lparr>undoText := Some ''abc'', undoZip := currentZip t0, lastToast := Some ReplaceFailed\<rparr>"
    by (simp add: handleReplaceAll_def getPairs_bad t0 Let_def applyTextReplacements_def
        pairBad_def[THEN arg_cong[where f=find]] pairBad_def[THEN arg_cong[where f=replace]] replaceAll_bad)
  show ?thesis
    unfolding Let_def t0_def[symmetric] t1 by (simp add: t0 br hic)
qed

end
